theory Spec2Isabelle
  imports Complex_Main "HOL-Library.Word"
begin

section \<open>Errors and loops\<close>

text \<open>
  The Python exceptions the flash detector can raise, as values.  A \<open>ValueError\<close> and an
  \<open>OverflowError\<close> carry their message, so that the speed check of \<open>detect_flashes\<close> can be
  told apart from a \<open>ValueError\<close> raised by a library call.
\<close>

datatype error =
    ValueError string
  | OverflowError string
  | ZeroDivisionError
  | IndexError

text \<open>
  A Python \<open>for\<close> loop over a sequence: the iterator hands out the elements one by one, the
  body transforms the loop state, and \<open>Inl\<close> leaves the loop at once (a raised exception,
  or a \<open>return\<close> from inside the loop).
\<close>

fun for_loop :: "'i list \<Rightarrow> ('i \<Rightarrow> 's \<Rightarrow> 'r + 's) \<Rightarrow> 's \<Rightarrow> 'r + 's" where
  "for_loop [] body s = Inr s"
| "for_loop (i # is) body s =
     (case body i s of Inl r \<Rightarrow> Inl r | Inr s' \<Rightarrow> for_loop is body s')"

section \<open>The red-flash state machine (red_transition_fsm.py)\<close>

text \<open>
  In the state machine, the viewport geometry and the luminance analyzer, floating-point
  numbers are modelled as real numbers: the statements about them are about the control
  structure of the program, not about rounding.  The arithmetic of the orchestrator is
  rounded, see below.
\<close>

type_synonym coordinate = "real \<times> real"

definition MAX_CHROMATICITY_DIFF :: real where
  "MAX_CHROMATICITY_DIFF = 0.2"

definition MAX_RED_PERCENTAGE :: real where
  "MAX_RED_PERCENTAGE = 0.8"

subsection \<open>ChromaticityChecker\<close>

text \<open>A checker is its list \<open>coordinates\<close>; \<open>push\<close> appends.\<close>

definition push :: "coordinate list \<Rightarrow> coordinate \<Rightarrow> coordinate list" where
  "push coordinates coordinate = coordinates @ [coordinate]"

text \<open>
  \<open>np.linalg.norm(coordinates_array - other_coord, axis=1)\<close> is the Euclidean distance of
  every stored coordinate to \<open>other_coord\<close>; \<open>np.any\<close> asks whether one of them reaches the
  threshold.  Every call in the program is on a checker that has just been pushed to, so the
  list is never empty there.
\<close>

definition chromaticity_distance :: "coordinate \<Rightarrow> coordinate \<Rightarrow> real" where
  "chromaticity_distance c other_coord =
     sqrt ((fst c - fst other_coord)\<^sup>2 + (snd c - snd other_coord)\<^sup>2)"

definition is_above_threshold :: "coordinate list \<Rightarrow> coordinate \<Rightarrow> bool" where
  "is_above_threshold coordinates other_coord =
     list_ex (\<lambda>c. chromaticity_distance c other_coord \<ge> MAX_CHROMATICITY_DIFF) coordinates"

subsection \<open>State\<close>

datatype state_name = A | B | C | D | E

record State =
  idx :: int
  name :: state_name
  chromaticity_checker :: "coordinate list"

text \<open>\<open>State(name, chromaticity, idx)\<close>: a fresh checker holding the one coordinate.\<close>

definition new_State :: "state_name \<Rightarrow> coordinate \<Rightarrow> int \<Rightarrow> State" where
  "new_State nm chromaticity i =
     \<lparr>idx = i, name = nm, chromaticity_checker = push [] chromaticity\<rparr>"

text \<open>\<open>State.__eq__\<close> (and \<open>__hash__\<close>): name and index decide, the checker does not.\<close>

definition state_eq :: "State \<Rightarrow> State \<Rightarrow> bool" where
  "state_eq s other \<longleftrightarrow> name s = name other \<and> idx s = idx other"

subsection \<open>Region\<close>

text \<open>
  A region's \<open>states\<close> is a Python set of \<open>State\<close> objects.  It is modelled as the list of
  its elements in iteration order; the theorems below quantify over every such list, so
  they hold for whatever order the set iterates in.
\<close>

definition should_transition :: "State \<Rightarrow> coordinate \<Rightarrow> real \<Rightarrow> bool \<Rightarrow> bool" where
  "should_transition state chromaticity red_percentage should_check_red_percentage =
     (if should_check_red_percentage \<and> red_percentage < MAX_RED_PERCENTAGE then False
      else if is_above_threshold (chromaticity_checker state) chromaticity then True
      else False)"

fun update_or_add_state :: "State \<Rightarrow> State list \<Rightarrow> coordinate \<Rightarrow> State list" where
  "update_or_add_state state [] chromaticity = [state]"
| "update_or_add_state state (s # state_set) chromaticity =
     (if state_eq s state
      then s\<lparr>chromaticity_checker := push (chromaticity_checker s) chromaticity\<rparr> # state_set
      else s # update_or_add_state state state_set chromaticity)"

text \<open>\<open>set.add\<close>: an element equal to one already in the set is not added.\<close>

definition set_add :: "State \<Rightarrow> State list \<Rightarrow> State list" where
  "set_add state state_set =
     (if list_ex (\<lambda>s. state_eq s state) state_set then state_set else state_set @ [state])"

definition add_start_state :: "coordinate \<Rightarrow> real \<Rightarrow> int \<Rightarrow> State list \<Rightarrow> State list" where
  "add_start_state chromaticity red_percentage i state_set =
     (if red_percentage \<ge> MAX_RED_PERCENTAGE
      then set_add (new_State B chromaticity i) state_set
      else set_add (new_State A chromaticity i) state_set)"

text \<open>
  The body of the loop \<open>for state in self.states\<close> of \<open>state_machine\<close>: the coordinate is
  pushed to the state's own checker, then the successors that may be entered are put into
  \<open>changed_state_set\<close>.  The state itself is not put there.
\<close>

definition state_machine_body :: "coordinate \<Rightarrow> real \<Rightarrow> State list \<Rightarrow> State \<Rightarrow> State list" where
  "state_machine_body chromaticity red_percentage changed_state_set state0 =
     (let state = state0\<lparr>chromaticity_checker := push (chromaticity_checker state0) chromaticity\<rparr>
      in case name state of
           A \<Rightarrow>
             (let changed1 =
                (if should_transition state chromaticity red_percentage True
                 then update_or_add_state (new_State C chromaticity (idx state))
                        changed_state_set chromaticity
                 else changed_state_set)
              in if should_transition state chromaticity red_percentage False
                 then update_or_add_state (new_State D chromaticity (idx state))
                        changed1 chromaticity
                 else changed1)
         | B \<Rightarrow>
             (if should_transition state chromaticity red_percentage False
              then update_or_add_state (new_State C chromaticity (idx state))
                     changed_state_set chromaticity
              else changed_state_set)
         | C \<Rightarrow>
             (if should_transition state chromaticity red_percentage False
              then update_or_add_state (new_State E chromaticity (idx state))
                     changed_state_set chromaticity
              else changed_state_set)
         | D \<Rightarrow>
             (if should_transition state chromaticity red_percentage True
              then update_or_add_state (new_State E chromaticity (idx state))
                     changed_state_set chromaticity
              else changed_state_set)
         | E \<Rightarrow> changed_state_set)"

text \<open>
  \<open>Region.state_machine\<close>: the new state set of a region whose state set is \<open>states\<close>,
  when its buffer's \<open>idx\<close> is \<open>buffer_idx\<close>.
\<close>

definition state_machine :: "State list \<Rightarrow> coordinate \<Rightarrow> real \<Rightarrow> int \<Rightarrow> State list" where
  "state_machine states chromaticity red_percentage buffer_idx =
     add_start_state chromaticity red_percentage buffer_idx
       (foldl (state_machine_body chromaticity red_percentage) [] states)"

fun flash_idx :: "State list \<Rightarrow> int" where
  "flash_idx [] = - 1"
| "flash_idx (state # states) = (if name state = E then idx state else flash_idx states)"

subsection \<open>Buffer\<close>

text \<open>
  The fields of \<open>Buffer\<close>; its \<open>idx\<close> and \<open>n\<close> are \<open>buf_idx\<close> and \<open>buf_n\<close> here.  The
  \<open>n \<times> n\<close> array of regions is a function of the grid position, read at positions below
  \<open>buf_n\<close> only; a region is its state set.
\<close>

record Buffer =
  buf_idx :: int
  regions :: "nat \<times> nat \<Rightarrow> State list"
  num_frames :: int
  buf_n :: nat
  frame_rate :: int
  red_flash_timestamps :: "(real \<times> real) list"

definition new_Buffer :: "int \<Rightarrow> nat \<Rightarrow> int \<Rightarrow> Buffer" where
  "new_Buffer nf k fr =
     \<lparr>buf_idx = 0, regions = (\<lambda>_. []), num_frames = nf, buf_n = k, frame_rate = fr,
      red_flash_timestamps = []\<rparr>"

text \<open>
  A two-dimensional array: its height, its width and its entries.  Reading outside raises
  \<open>IndexError\<close>.
\<close>

type_synonym 'a array2 = "nat \<times> nat \<times> (nat \<Rightarrow> nat \<Rightarrow> 'a)"

fun array_get :: "'a array2 \<Rightarrow> nat \<Rightarrow> nat \<Rightarrow> error + 'a" where
  "array_get (h, w, px) i j = (if i < h \<and> j < w then Inr (px i j) else Inl IndexError)"

definition remove_frame :: "Buffer \<Rightarrow> int \<Rightarrow> Buffer" where
  "remove_frame b i =
     b\<lparr>regions := (\<lambda>(r, c).
          if r < buf_n b \<and> c < buf_n b
          then filter (\<lambda>item. idx item \<noteq> i) (regions b (r, c))
          else regions b (r, c))\<rparr>"

text \<open>The body of the two nested loops of \<open>add_frame\<close>, at grid position \<open>(i, j)\<close>.\<close>

definition add_frame_body :: "(real \<times> real \<times> real) array2 \<Rightarrow> nat \<Rightarrow> nat \<Rightarrow> Buffer \<Rightarrow> error + Buffer" where
  "add_frame_body frame i j b =
     (case array_get frame i j of
        Inl e \<Rightarrow> Inl e
      | Inr (u, v, red_percentage) \<Rightarrow>
          (let b1 = b\<lparr>regions := (regions b)
                      ((i, j) := state_machine (regions b (i, j)) (u, v) red_percentage (buf_idx b))\<rparr>
           in if flash_idx (regions b1 (i, j)) \<noteq> - 1
              then (if frame_rate b1 = 0 then Inl ZeroDivisionError
                    else Inr (b1\<lparr>red_flash_timestamps := red_flash_timestamps b1 @
                           [(real i / real_of_int (frame_rate b1),
                             real j / real_of_int (frame_rate b1))]\<rparr>))
              else Inr b1))"

definition add_frame :: "Buffer \<Rightarrow> (real \<times> real \<times> real) array2 \<Rightarrow> error + Buffer" where
  "add_frame b frame =
     (case for_loop [0..<buf_n b]
             (\<lambda>i. for_loop [0..<buf_n b] (\<lambda>j. add_frame_body frame i j)) b of
        Inl e \<Rightarrow> Inl e
      | Inr b1 \<Rightarrow>
          (let b2 = b1\<lparr>buf_idx := buf_idx b1 + 1\<rparr>;
               out_idx = buf_idx b2 - num_frames b2
           in if out_idx \<ge> 0 then Inr (remove_frame b2 out_idx) else Inr b2))"

subsection \<open>What a frame does to a region\<close>

text \<open>
  The state set of the region at grid position \<open>p\<close> after \<open>add_frame\<close> has run the state
  machine on it, and before the eviction at the end of \<open>add_frame\<close>.
\<close>

definition stepped :: "Buffer \<Rightarrow> (real \<times> real \<times> real) array2 \<Rightarrow> nat \<times> nat \<Rightarrow> State list" where
  "stepped b frame p =
     (case frame of (h, w, px) \<Rightarrow>
        (case px (fst p) (snd p) of (u, v, red_percentage) \<Rightarrow>
           state_machine (regions b p) (u, v) red_percentage (buf_idx b)))"

text \<open>The timestamps \<open>add_frame\<close> appends at position \<open>(i, j)\<close>, and in row \<open>i\<close>.\<close>

definition stamp :: "Buffer \<Rightarrow> (real \<times> real \<times> real) array2 \<Rightarrow> nat \<Rightarrow> nat \<Rightarrow> (real \<times> real) list" where
  "stamp b frame i j =
     (if flash_idx (stepped b frame (i, j)) \<noteq> - 1
      then [(real i / real_of_int (frame_rate b), real j / real_of_int (frame_rate b))] else [])"

definition row_stamps :: "Buffer \<Rightarrow> (real \<times> real \<times> real) array2 \<Rightarrow> nat \<Rightarrow> (real \<times> real) list" where
  "row_stamps b frame i = concat (map (stamp b frame i) [0..<buf_n b])"

text \<open>
  The buffers the program builds: \<open>idx\<close> starts at 0 and is only ever incremented, and a
  state's index is the buffer's \<open>idx\<close> at the time its start state was made, so no index is
  negative.  (\<open>flash_idx\<close> uses \<open>-1\<close> for "no flash".)
\<close>

definition buffer_ok :: "Buffer \<Rightarrow> bool" where
  "buffer_ok b \<longleftrightarrow> 0 \<le> buf_idx b \<and>
     list_all (\<lambda>i. list_all (\<lambda>j. list_all (\<lambda>s. 0 \<le> idx s) (regions b (i, j)))
       [0..<buf_n b]) [0..<buf_n b]"

section \<open>Viewport geometry (region_shape.py)\<close>

text \<open>
  \<open>calc_viewport\<close> returns a list of three numbers; the program reads the third only, the
  side length in pixels of the square viewport, and that entry is what is modelled here.
  \<open>screen_resolution\<close> is the pair the caller passes (height first).  The conversion
  \<open>int(np.ceil(...))\<close> raises when the pixel density is not a finite number: \<open>0 / 0.0\<close> is
  NaN when the first resolution entry is 0, and a division by a zero screen dimension is
  infinite.
\<close>

definition calc_viewport :: "nat \<times> nat \<Rightarrow> real \<Rightarrow> real \<Rightarrow> real \<Rightarrow> error + int" where
  "calc_viewport screen_resolution screen_size view_distance viewport_angle =
     (let radius = view_distance * tan (viewport_angle * pi / 180);
          g = gcd (fst screen_resolution) (snd screen_resolution);
          aspect_ratio = (fst screen_resolution div g, snd screen_resolution div g);
          hypotenuse = sqrt (real ((fst aspect_ratio)\<^sup>2 + (snd aspect_ratio)\<^sup>2));
          screen_dimensions = (real (fst aspect_ratio) / hypotenuse * screen_size,
                               real (snd aspect_ratio) / hypotenuse * screen_size);
          square_side_length = sqrt 2 * radius
      in if fst screen_resolution = 0
         then Inl (ValueError ''cannot convert float NaN to integer'')
         else if fst screen_dimensions = 0
         then (if square_side_length = 0
               then Inl (ValueError ''cannot convert float NaN to integer'')
               else Inl (OverflowError ''cannot convert float infinity to integer''))
         else (let ppcm = real (fst screen_resolution) / fst screen_dimensions
               in Inr \<lceil>square_side_length * ppcm\<rceil>))"

section \<open>The luminance analyzer (danger_detection.py)\<close>

text \<open>
  A pixel is three bytes; a frame of the video is read at a row and a column.  All frames
  of one video have the height and width that the capture reports, which are kept beside
  the frames.
\<close>

type_synonym pixel = "8 word \<times> 8 word \<times> 8 word"
type_synonym frame = "nat \<Rightarrow> nat \<Rightarrow> pixel"

text \<open>
  \<open>np.mean(segment[:, :, 1])\<close>: the mean of the second channel.  The mean of an empty
  segment is NaN, here \<open>None\<close>.
\<close>

definition calculate_average_luminance :: "pixel list \<Rightarrow> real option" where
  "calculate_average_luminance segment =
     (if segment = [] then None
      else Some (sum_list (map (\<lambda>p. real (unat (fst (snd p)))) segment) / real (length segment)))"

text \<open>The slice \<open>dangerous[frame_idx, y1:y2, x1:x2]\<close>, row by row.\<close>

definition slice :: "frame \<Rightarrow> nat \<Rightarrow> nat \<Rightarrow> nat \<Rightarrow> nat \<Rightarrow> pixel list" where
  "slice f y1 y2 x1 x2 = concat (map (\<lambda>y. map (f y) [x1..<x2]) [y1..<y2])"

text \<open>
  The first pass: \<open>luminances[frame_idx, row, col]\<close> is the mean luminance of the tile at
  \<open>(row, col)\<close> of frame \<open>frame_idx\<close>.
\<close>

definition precalculate_luminances :: "nat \<Rightarrow> nat \<Rightarrow> frame list \<Rightarrow> nat \<Rightarrow> nat \<Rightarrow> nat \<Rightarrow> real option" where
  "precalculate_luminances segment_height segment_width dangerous frame_idx row col =
     calculate_average_luminance
       (slice (dangerous ! frame_idx)
          (row * segment_height) ((row + 1) * segment_height)
          (col * segment_width) ((col + 1) * segment_width))"

definition luminance_threshold :: real where
  "luminance_threshold = 0.5 * 255"

text \<open>
  The condition of the \<open>if\<close> in the scan, on the luminances of one tile in two frames.
  Every comparison with NaN is false.
\<close>

definition opposing :: "real option \<Rightarrow> real option \<Rightarrow> bool" where
  "opposing a b =
     (case a of None \<Rightarrow> False
      | Some x \<Rightarrow> (case b of None \<Rightarrow> False
          | Some y \<Rightarrow> \<bar>x - y\<bar> > luminance_threshold \<and> (x < 0.8 * 255 \<or> y < 0.8 * 255)))"

text \<open>
  The variables of the scan.  The four loop variables are ordinary variables: a \<open>for\<close>
  loop assigns the next element of its range to its variable at the start of every
  iteration, and an assignment to the variable inside the body lasts until then.
\<close>

record scan =
  frame_idx :: nat
  future_frame :: nat
  row :: nat
  col :: nat
  num_flashes :: "nat \<times> nat \<Rightarrow> nat"

text \<open>\<open>np.max(num_flashes)\<close> over the \<open>sections \<times> sections\<close> counts.\<close>

definition np_max :: "nat \<Rightarrow> (nat \<times> nat \<Rightarrow> nat) \<Rightarrow> nat" where
  "np_max sections counts = foldl max 0 (map counts (List.product [0..<sections] [0..<sections]))"

text \<open>
  The body of the innermost loop.  \<open>luminances\<close> is an array of shape
  \<open>(num_frames, sections, sections)\<close>; \<open>Inl\<close> leaves all four loops, with an exception or
  with the value of the \<open>return\<close>.
\<close>

definition scan_body :: "(nat \<Rightarrow> nat \<Rightarrow> nat \<Rightarrow> real option) \<Rightarrow> nat \<Rightarrow> nat \<Rightarrow> scan \<Rightarrow> (error + nat) + scan" where
  "scan_body luminances nframes sections s =
     (if \<not> (frame_idx s < nframes \<and> future_frame s < nframes \<and>
             row s < sections \<and> col s < sections)
      then Inl (Inl IndexError)
      else if opposing (luminances (frame_idx s) (row s) (col s))
                       (luminances (future_frame s) (row s) (col s))
      then (let s1 = s\<lparr>num_flashes := (num_flashes s)
                         ((row s, col s) := num_flashes s (row s, col s) + 1)\<rparr>
            in if int (future_frame s1) < int nframes - 1
               then Inr (s1\<lparr>frame_idx := future_frame s1, future_frame := future_frame s1 + 1,
                           row := 0, col := 0\<rparr>)
               else Inl (Inr (np_max sections (num_flashes s1))))
      else Inr s)"

text \<open>The four nested loops of the scan, and the \<open>return\<close> after them.\<close>

definition detect_changes :: "(nat \<Rightarrow> nat \<Rightarrow> nat \<Rightarrow> real option) \<Rightarrow> nat \<Rightarrow> nat \<Rightarrow> error + nat" where
  "detect_changes luminances nframes sections =
     (case for_loop [0..<nframes] (\<lambda>i s0.
             let s1 = s0\<lparr>frame_idx := i\<rparr> in
             for_loop [frame_idx s1 + 1..<nframes] (\<lambda>j s2.
               for_loop [0..<sections] (\<lambda>r s3.
                 for_loop [0..<sections] (\<lambda>c s4.
                   scan_body luminances nframes sections (s4\<lparr>col := c\<rparr>))
                 (s3\<lparr>row := r\<rparr>))
               (s2\<lparr>future_frame := j\<rparr>))
             s1)
           \<lparr>frame_idx = 0, future_frame = 0, row = 0, col = 0, num_flashes = (\<lambda>_. 0)\<rparr> of
        Inl r \<Rightarrow> r
      | Inr s \<Rightarrow> Inr (np_max sections (num_flashes s)))"

text \<open>
  \<open>process_dangerous(dangerous, frame_rate)\<close>, where \<open>dangerous\<close> has shape
  \<open>(num_frames, height, width, 3)\<close>: the tile size from the viewport, the first pass, and
  the scan.  The result of \<open>np.max\<close> is a count.
\<close>

definition process_dangerous :: "nat \<Rightarrow> nat \<Rightarrow> frame list \<Rightarrow> error + nat" where
  "process_dangerous height width dangerous =
     (case calc_viewport (height, width) (15 * 2.54) (26 * 2.54) 10 of
        Inl e \<Rightarrow> Inl e
      | Inr square_length \<Rightarrow>
          if square_length = 0 then Inl ZeroDivisionError
          else (let sections = max (int height div square_length) (int width div square_length)
                in if sections = 0 then Inl ZeroDivisionError
                   else if sections < 0
                   then Inl (ValueError ''negative dimensions are not allowed'')
                   else (let segment_height = height div nat sections;
                             segment_width = width div nat sections
                         in detect_changes
                              (precalculate_luminances segment_height segment_width dangerous)
                              (length dangerous) (nat sections))))"

subsection \<open>The scan as the specification words it\<close>

text \<open>
  Not from the source: the skip-ahead discipline in the words of the specification, to
  compare the source's scan with.  For each pair of frames \<open>i < j\<close> and each tile: when
  the tile's luminances in the two frames are an opposing transition, count it for the
  tile, advance \<open>i\<close> to \<open>j\<close>, reset \<open>j\<close> to \<open>i + 1\<close> and restart the tile scan.  \<open>ts\<close> is
  what is left of the tile scan for the pair \<open>(i, j)\<close>.
\<close>

function skip_ahead_scan ::
  "(nat \<Rightarrow> nat \<Rightarrow> nat \<Rightarrow> real option) \<Rightarrow> nat \<Rightarrow> (nat \<times> nat) list \<Rightarrow> nat \<Rightarrow> nat \<Rightarrow>
   (nat \<times> nat) list \<Rightarrow> (nat \<times> nat \<Rightarrow> nat) \<Rightarrow> (nat \<times> nat \<Rightarrow> nat)" where
  "skip_ahead_scan luminances n tiles i j ts counts =
     (if n \<le> j \<or> j \<le> i
      then (if n \<le> i + 2 then counts
            else skip_ahead_scan luminances n tiles (i + 1) (i + 2) tiles counts)
      else (case ts of
              [] \<Rightarrow> skip_ahead_scan luminances n tiles i (j + 1) tiles counts
            | t # ts' \<Rightarrow>
                if opposing (luminances i (fst t) (snd t)) (luminances j (fst t) (snd t))
                then skip_ahead_scan luminances n tiles j (j + 1) tiles
                       (counts(t := counts t + 1))
                else skip_ahead_scan luminances n tiles i j ts' counts))"
  by pat_completeness auto
termination
  by (relation "measures [\<lambda>(l, n, tiles, i, j, ts, c). n - i,
                          \<lambda>(l, n, tiles, i, j, ts, c). n - j,
                          \<lambda>(l, n, tiles, i, j, ts, c). length ts]") auto

definition skip_ahead_count :: "(nat \<Rightarrow> nat \<Rightarrow> nat \<Rightarrow> real option) \<Rightarrow> nat \<Rightarrow> nat \<Rightarrow> nat" where
  "skip_ahead_count luminances n sections =
     (let tiles = List.product [0..<sections] [0..<sections]
      in np_max sections (skip_ahead_scan luminances n tiles 0 1 tiles (\<lambda>_. 0)))"

section \<open>Floating-point arithmetic\<close>

text \<open>
  A Python \<open>float\<close> is an IEEE 754 double, and an arithmetic operation on floats gives the
  double nearest to the exact result, a tie going to the double with the even significand.
  \<open>round_half_even\<close> is the integer nearest to a real number, ties to even.
  \<open>quantum x\<close> is the exponent of the unit in the last place of the doubles around \<open>x\<close>:
  a double has a significand of 53 bits, and below \<open>2 powi (- 1022)\<close> the doubles are
  subnormal, all multiples of \<open>2 powi (- 1074)\<close>.  \<open>round_double x\<close> is the double nearest
  to \<open>x\<close> when exponents are not bounded above; \<open>double_overflow x\<close> says that it is beyond
  the largest double, where the operation gives infinity.
\<close>

definition round_half_even :: "real \<Rightarrow> int" where
  "round_half_even y =
     (let n = \<lfloor>y\<rfloor>; d = y - of_int n
      in if d < 1 / 2 then n else if d > 1 / 2 then n + 1 else if even n then n else n + 1)"

definition quantum :: "real \<Rightarrow> int" where
  "quantum x = max \<lfloor>log 2 \<bar>x\<bar>\<rfloor> (- 1022) - 52"

definition round_double :: "real \<Rightarrow> real" where
  "round_double x =
     (if x = 0 then 0
      else of_int (round_half_even (x / 2 powi quantum x)) * 2 powi quantum x)"

definition double_overflow :: "real \<Rightarrow> bool" where
  "double_overflow x \<longleftrightarrow> 2 ^ 1024 \<le> \<bar>round_double x\<bar>"

section \<open>The orchestrator (flashdetector.py)\<close>

text \<open>
  What \<open>cv2.VideoCapture\<close> gives the program: whether the video could be opened, the
  properties it reports, and the frames that \<open>read\<close> delivers, in order.  A frame is in
  BGR order.  The reported height and width are the dimensions of every frame.
\<close>

record VideoCapture =
  opened :: bool
  frame_height :: nat
  frame_width :: nat
  frame_count :: int
  fps :: real
  frames :: "frame list"

text \<open>\<open>int(x)\<close> on a float: truncation towards zero.\<close>

definition py_int :: "real \<Rightarrow> int" where
  "py_int x = (if x \<ge> 0 then \<lfloor>x\<rfloor> else \<lceil>x\<rceil>)"

definition frame_rate_of :: "VideoCapture \<Rightarrow> int" where
  "frame_rate_of cap = py_int (fps cap)"

text \<open>
  \<open>int(frame_rate * speed)\<close>: \<open>frame_rate\<close> is an \<open>int\<close> and \<open>speed\<close> a \<open>float\<close>, so the
  frame rate is converted to a float and the product is a float product, rounded.
\<close>

definition frames_per_second_of :: "VideoCapture \<Rightarrow> real \<Rightarrow> int" where
  "frames_per_second_of cap speed =
     py_int (round_double (round_double (real_of_int (frame_rate_of cap)) * speed))"

definition hertz :: int where
  "hertz = 3"

definition skip_enabled :: int where
  "skip_enabled = 1"

text \<open>
  The chromaticity and red percentage of one pixel of the frame: the tristimulus values
  of its RGB value, \<open>u\<close>, \<open>v\<close>, and \<open>R / (R + G + B)\<close>, with the two zero denominators
  replaced as the source does.
\<close>

definition chromacityRerc :: "pixel \<Rightarrow> real \<times> real \<times> real" where
  "chromacityRerc p =
     (let b = real (unat (fst p)); g = real (unat (fst (snd p))); r = real (unat (snd (snd p)));
          x = 0.4124564 * r + 0.3575761 * g + 0.1804375 * b;
          y = 0.2126729 * r + 0.7151522 * g + 0.0721750 * b;
          z = 0.0193339 * r + 0.1191920 * g + 0.9503041 * b;
          d0 = x + 15 * y + 3 * z;
          d = (if d0 = 0 then 134217728 else d0);
          u = 4 * x / d;
          v = 9 * y / d;
          cTotal0 = r + g + b;
          cTotal = (if cTotal0 = 0 then 134217728 else cTotal0);
          rperc = r / cTotal
      in (u, v, rperc))"

text \<open>\<open>deque.append\<close> on a deque with \<open>maxlen\<close>: a full deque drops its oldest element.\<close>

definition deque_append :: "int \<Rightarrow> 'a list \<Rightarrow> 'a \<Rightarrow> 'a list" where
  "deque_append maxlen xs x =
     (let ys = xs @ [x] in if int (length ys) > maxlen then tl ys else ys)"

text \<open>The variables of the main loop that change.\<close>

record loop_vars =
  frame_counter :: int
  frame_buffer :: "frame list"
  frame_buffer_red :: Buffer
  start_danger :: int
  timestamps :: "(real \<times> real) list"

text \<open>
  The part of the loop body after the frame has been given to the red-flash buffer:
  the frame, converted to HLS, enters the window, and a full window is analysed.
  The two quotients of a timestamp are divisions of an \<open>int\<close> by an \<open>int\<close>, which give the
  nearest float; the sum with \<open>skip_enabled * 2\<close> is a float sum.  (A quotient beyond the
  doubles needs more than \<open>2 ^ 1024\<close> frames.)
\<close>

definition luminance_step :: "VideoCapture \<Rightarrow> real \<Rightarrow> frame \<Rightarrow> loop_vars \<Rightarrow> error + loop_vars" where
  "luminance_step cap speed hls_frame s =
     (let frame_rate = frame_rate_of cap;
          frames_per_second = frames_per_second_of cap speed;
          s1 = s\<lparr>frame_buffer := deque_append frames_per_second (frame_buffer s) hls_frame\<rparr>
      in if int (length (frame_buffer s1)) = frames_per_second
         then (case process_dangerous (frame_height cap) (frame_width cap) (frame_buffer s1) of
                 Inl e \<Rightarrow> Inl e
               | Inr flashes \<Rightarrow>
                   (let s2 = (if int flashes \<ge> hertz \<and> start_danger s1 = - 1
                              then s1\<lparr>start_danger := frame_counter s1\<rparr> else s1)
                    in case (if int flashes < hertz \<and> start_danger s2 \<ge> 0
                             then (if frame_rate = 0 then Inl ZeroDivisionError
                                   else Inr (s2\<lparr>timestamps := timestamps s2 @
                                          [(round_double (real_of_int (skip_enabled * 2) +
                                              round_double (real_of_int (start_danger s2) /
                                                            real_of_int frame_rate)),
                                            round_double (real_of_int (frame_counter s2) /
                                                          real_of_int frame_rate))],
                                          start_danger := - 1\<rparr>))
                             else Inr s2) of
                         Inl e \<Rightarrow> Inl e
                       | Inr s3 \<Rightarrow>
                           if skip_enabled \<noteq> 0 \<and> flashes = 0
                           then Inr (s3\<lparr>frame_buffer := [],
                                        frame_counter := frame_counter s3 + 1\<rparr>)
                           else if frame_buffer s3 = [] then Inl IndexError
                           else Inr (s3\<lparr>frame_buffer := tl (frame_buffer s3),
                                        frame_counter := frame_counter s3 + 1\<rparr>)))
         else Inr (s1\<lparr>frame_counter := frame_counter s1 + 1\<rparr>))"

text \<open>
  The loop body for a frame that was read.  \<open>bgr2hls\<close> is what
  \<open>cv2.cvtColor(frame, cv2.COLOR_BGR2HLS)\<close> does to a pixel; it is OpenCV's and a parameter
  here.  The progress message divides by the reported frame count.
\<close>

definition loop_body :: "(pixel \<Rightarrow> pixel) \<Rightarrow> VideoCapture \<Rightarrow> real \<Rightarrow> frame \<Rightarrow> loop_vars \<Rightarrow> error + loop_vars" where
  "loop_body bgr2hls cap speed frame s =
     (if frame_counter s mod 60 = 0 \<and> frame_count cap = 0 then Inl ZeroDivisionError
      else (case add_frame (frame_buffer_red s)
                   (frame_height cap, frame_width cap, \<lambda>i j. chromacityRerc (frame i j)) of
              Inl e \<Rightarrow> Inl e
            | Inr red \<Rightarrow>
                luminance_step cap speed (\<lambda>i j. bgr2hls (frame i j))
                  (s\<lparr>frame_buffer_red := red\<rparr>)))"

text \<open>
  The \<open>while\<close> loop: one \<open>cap.read()\<close> per iteration, counted in the second component.
  When the frames are used up, \<open>read\<close> fails; the two messages printed then divide by the
  frame count and by the window size.
\<close>

fun read_loop :: "(pixel \<Rightarrow> pixel) \<Rightarrow> VideoCapture \<Rightarrow> real \<Rightarrow> frame list \<Rightarrow> loop_vars \<Rightarrow> nat \<Rightarrow> (error + loop_vars) \<times> nat" where
  "read_loop bgr2hls cap speed [] s reads =
     (if frame_counter s mod 60 = 0 \<and> frame_count cap = 0 then (Inl ZeroDivisionError, reads + 1)
      else if frames_per_second_of cap speed = 0 then (Inl ZeroDivisionError, reads + 1)
      else (Inr s, reads + 1))"
| "read_loop bgr2hls cap speed (frame # rest) s reads =
     (case loop_body bgr2hls cap speed frame s of
        Inl e \<Rightarrow> (Inl e, reads + 1)
      | Inr s' \<Rightarrow> read_loop bgr2hls cap speed rest s' (reads + 1))"

text \<open>
  The merge of the timestamps.  \<open>stamp[1] = next[1]\<close> changes the interval at \<open>idx\<close> in
  place, and \<open>timestamps.remove(next)\<close> removes the first interval equal to \<open>next\<close>.
  The difference \<open>stamp[1] - next[0]\<close> is a float difference.
\<close>

function merge_loop :: "(real \<times> real) list \<Rightarrow> nat \<Rightarrow> (real \<times> real) list" where
  "merge_loop stamps i =
     (if i < length stamps
      then (if i + 1 = length stamps then stamps
            else (let stamp = stamps ! i; nxt = stamps ! (i + 1)
                  in if \<bar>round_double (snd stamp - fst nxt)\<bar> < 3
                     then merge_loop (remove1 nxt (stamps[i := (fst stamp, snd nxt)])) i
                     else merge_loop stamps (i + 1)))
      else stamps)"
  by pat_completeness auto
termination
proof (relation "measure (\<lambda>(stamps, i). length stamps + (length stamps - i))")
  show "wf (measure (\<lambda>(stamps, i). length stamps + (length stamps - i)))" by simp
next
  fix stamps :: "(real \<times> real) list" and i x xa
  assume a: "i < length stamps" "i + 1 \<noteq> length stamps" "x = stamps ! i" "xa = stamps ! (i + 1)"
  then have "xa \<in> set (stamps[i := (fst x, snd xa)])"
    by (metis Suc_eq_plus1 Suc_lessI length_list_update n_not_Suc_n nth_list_update_neq nth_mem)
  then have "length (remove1 xa (stamps[i := (fst x, snd xa)])) = length stamps - 1"
    by (simp add: length_remove1)
  then show "((remove1 xa (stamps[i := (fst x, snd xa)]), i), stamps, i)
       \<in> measure (\<lambda>(stamps, i). length stamps + (length stamps - i))"
    using a by simp
next
  fix stamps :: "(real \<times> real) list" and i x xa
  assume "i < length stamps"
  then show "((stamps, i + 1), stamps, i) \<in> measure (\<lambda>(stamps, i). length stamps + (length stamps - i))"
    by simp
qed

text \<open>
  \<open>detect_flashes\<close>: the result, and the number of calls of \<open>cap.read()\<close>.  A product
  \<open>frame_rate * speed\<close> beyond the doubles is infinity, which \<open>int\<close> refuses.  The window
  array \<open>dangerous\<close> cannot be made with a negative number of frames (that the memory
  holds an array of the size asked for is taken for granted).
\<close>

definition detect_flashes :: "(pixel \<Rightarrow> pixel) \<Rightarrow> VideoCapture \<Rightarrow> real \<Rightarrow> (error + (real \<times> real) list) \<times> nat" where
  "detect_flashes bgr2hls cap speed =
     (if speed > 5 \<or> speed < 0.2
      then (Inl (ValueError ''speed must not exceed 5x and must be positive''), 0)
      else if double_overflow (round_double (real_of_int (frame_rate_of cap)) * speed)
      then (Inl (OverflowError ''cannot convert float infinity to integer''), 0)
      else if frames_per_second_of cap speed < 0
      then (Inl (ValueError ''negative dimensions are not allowed''), 0)
      else if \<not> opened cap then (Inr (merge_loop [] 0), 0)
      else (case read_loop bgr2hls cap speed (frames cap)
                   \<lparr>frame_counter = 0, frame_buffer = [],
                    frame_buffer_red = new_Buffer 4 4 (frame_rate_of cap),
                    start_danger = - 1, timestamps = []\<rparr> 0 of
              (Inl e, reads) \<Rightarrow> (Inl e, reads)
            | (Inr s, reads) \<Rightarrow> (Inr (merge_loop (timestamps s) 0), reads)))"

text \<open>The exception of the speed check.\<close>

definition speed_error :: error where
  "speed_error = ValueError ''speed must not exceed 5x and must be positive''"

subsection \<open>Orderings of intervals\<close>

text \<open>
  \<open>precedes a b\<close>: the interval \<open>b\<close> starts and ends no earlier than \<open>a\<close> does, and starts no
  earlier than \<open>a\<close> ends.
  \<open>separated a b\<close>: \<open>b\<close> starts no earlier than \<open>a\<close> ends, and the float difference of the
  two, the gap that the program computes, is at least 3 seconds.
  \<open>loop_inv\<close> is what the main loop keeps true of its variables, for a frame rate \<open>fr\<close>.
\<close>

definition precedes :: "real \<times> real \<Rightarrow> real \<times> real \<Rightarrow> bool" where
  "precedes a b \<longleftrightarrow> fst a \<le> fst b \<and> snd a \<le> snd b \<and> snd a \<le> fst b"

definition separated :: "real \<times> real \<Rightarrow> real \<times> real \<Rightarrow> bool" where
  "separated a b \<longleftrightarrow> snd a \<le> fst b \<and> 3 \<le> round_double (fst b - snd a)"

definition stamp_start :: "int \<Rightarrow> int \<Rightarrow> real" where
  "stamp_start fr k = round_double (2 + round_double (real_of_int k / real_of_int fr))"

definition stamp_end :: "int \<Rightarrow> int \<Rightarrow> real" where
  "stamp_end fr k = round_double (real_of_int k / real_of_int fr)"

definition loop_inv :: "int \<Rightarrow> loop_vars \<Rightarrow> bool" where
  "loop_inv fr s \<longleftrightarrow>
     0 \<le> frame_counter s \<and>
     (start_danger s = - 1 \<or> (0 \<le> start_danger s \<and> start_danger s < frame_counter s)) \<and>
     (timestamps s \<noteq> [] \<or> start_danger s \<noteq> - 1 \<longrightarrow> 0 < fr) \<and>
     sorted_wrt precedes (timestamps s) \<and>
     (\<forall>p\<in>set (timestamps s).
        fst p \<le> round_double (2 + snd p) \<and>
        fst p \<le> stamp_start fr (if start_danger s = - 1 then frame_counter s else start_danger s) \<and>
        snd p \<le> stamp_end fr (if start_danger s = - 1 then frame_counter s else start_danger s))"

section \<open>Properties of the state machine\<close>

lemma name_update_or_add:
  "name ` set (update_or_add_state st ss c) \<subseteq> insert (name st) (name ` set ss)"
  by (induction ss) auto

lemma idx_update_or_add:
  "idx ` set (update_or_add_state st ss c) \<subseteq> insert (idx st) (idx ` set ss)"
  by (induction ss) auto

text \<open>Only successor states (named C, D or E) are put into the changed state set.\<close>

lemma cond_add_names:
  assumes "nm \<in> {C, D, E}" "name ` set ch \<subseteq> {C, D, E}"
  shows "name ` set (if P then update_or_add_state (new_State nm c i) ch c else ch) \<subseteq> {C, D, E}"
proof -
  have "name (new_State nm c i) = nm" by (simp add: new_State_def)
  then show ?thesis
    using name_update_or_add[of "new_State nm c i" ch c] assms by auto
qed

lemma body_names:
  assumes "name ` set changed \<subseteq> {C, D, E}"
  shows "name ` set (state_machine_body c r changed s) \<subseteq> {C, D, E}"
proof (cases "name s")
  case A
  then show ?thesis
    unfolding state_machine_body_def Let_def
    by (simp del: set_simps add: cond_add_names assms)
next
  case B
  then show ?thesis
    unfolding state_machine_body_def Let_def
    by (simp add: cond_add_names assms)
next
  case C
  then show ?thesis
    unfolding state_machine_body_def Let_def
    by (simp add: cond_add_names assms)
next
  case D
  then show ?thesis
    unfolding state_machine_body_def Let_def
    by (simp add: cond_add_names assms)
next
  case E
  then show ?thesis
    unfolding state_machine_body_def Let_def
    by (simp add: assms)
qed


lemma foldl_body_names:
  "name ` set changed \<subseteq> {C, D, E} \<Longrightarrow>
   name ` set (foldl (state_machine_body c r) changed ss) \<subseteq> {C, D, E}"
  by (induction ss arbitrary: changed) (simp_all add: body_names)

text \<open>A successor inherits the index of the state it comes from.\<close>

lemma cond_add_idx:
  assumes "idx ` set ch \<subseteq> insert i S"
  shows "idx ` set (if P then update_or_add_state (new_State nm c i) ch c else ch) \<subseteq> insert i S"
proof -
  have "idx (new_State nm c i) = i" by (simp add: new_State_def)
  then show ?thesis
    using idx_update_or_add[of "new_State nm c i" ch c] assms by auto
qed

lemma add_idx:
  assumes "idx ` set ch \<subseteq> insert i S"
  shows "idx ` set (update_or_add_state (new_State nm c i) ch c) \<subseteq> insert i S"
  using cond_add_idx[OF assms, of True] by simp

lemma body_idx:
  "idx ` set (state_machine_body c r changed s) \<subseteq> insert (idx s) (idx ` set changed)"
proof -
  have base: "idx ` set changed \<subseteq> insert (idx s) (idx ` set changed)" by auto
  show ?thesis
  proof (cases "name s")
    case A
    then show ?thesis
      unfolding state_machine_body_def Let_def
      by (simp del: set_simps add: add_idx base)
  next
    case B
    then show ?thesis
      unfolding state_machine_body_def Let_def
      by (simp del: set_simps add: add_idx base)
  next
    case C
    then show ?thesis
      unfolding state_machine_body_def Let_def
      by (simp del: set_simps add: add_idx base)
  next
    case D
    then show ?thesis
      unfolding state_machine_body_def Let_def
      by (simp del: set_simps add: add_idx base)
  next
    case E
    then show ?thesis
      unfolding state_machine_body_def Let_def
      by (simp add: base)
  qed
qed

lemma foldl_body_idx:
  "idx ` set (foldl (state_machine_body c r) changed ss) \<subseteq> idx ` set changed \<union> idx ` set ss"
proof (induction ss arbitrary: changed)
  case Nil
  then show ?case by simp
next
  case (Cons s ss)
  show ?case
    using Cons.IH[of "state_machine_body c r changed s"] body_idx[of c r changed s]
    by auto
qed

text \<open>The new state set: the successors, and the start state of the current index.\<close>

lemma state_machine_set:
  "set (state_machine ss c r i) =
     insert \<lparr>idx = i, name = (if r \<ge> 0.8 then B else A), chromaticity_checker = [c]\<rparr>
       (set (foldl (state_machine_body c r) [] ss))"
proof -
  have "name ` set (foldl (state_machine_body c r) [] ss) \<subseteq> {C, D, E}"
    by (rule foldl_body_names) simp
  then have no: "\<And>s. s \<in> set (foldl (state_machine_body c r) [] ss) \<Longrightarrow> name s \<noteq> A \<and> name s \<noteq> B"
    by auto
  show ?thesis
    using no
    by (auto simp: state_machine_def add_start_state_def set_add_def list_ex_iff state_eq_def
        new_State_def push_def MAX_RED_PERCENTAGE_def)
qed

text \<open>
  C10.  After \<open>state_machine\<close> has run on the sample \<open>((u, v), r)\<close> at buffer index \<open>i\<close>,
  whatever the state set was before: the state set holds the start state of index \<open>i\<close>
  whose checker is exactly \<open>[(u, v)]\<close>, named B if \<open>r \<ge> 0.8\<close> and A otherwise; it holds no
  state of the other start name (so never both for that index); and it is not empty.
\<close>

theorem state_machine_start_state:
  "(let states' = state_machine states (u, v) r i;
        start = (if r \<ge> 0.8 then B else A);
        other = (if r \<ge> 0.8 then A else B)
    in list_ex (\<lambda>s. s = \<lparr>idx = i, name = start, chromaticity_checker = [(u, v)]\<rparr>) states'
       \<and> \<not> list_ex (\<lambda>s. name s = other) states'
       \<and> states' \<noteq> [])"
proof -
  have "name ` set (foldl (state_machine_body (u, v) r) [] states) \<subseteq> {C, D, E}"
    by (rule foldl_body_names) simp
  then have no: "\<And>s. s \<in> set (foldl (state_machine_body (u, v) r) [] states) \<Longrightarrow>
      name s \<noteq> A \<and> name s \<noteq> B"
    by auto
  have ne: "state_machine states (u, v) r i \<noteq> []"
    using state_machine_set[of states "(u, v)" r i] by (metis insert_not_empty set_empty)
  show ?thesis
    unfolding Let_def list_ex_iff using no ne
    by (auto simp: state_machine_set)
qed

text \<open>
  C1.  The claim says that a state for which no transition fires stays in the state set,
  with the coordinate appended to its checker, as the comment \<open>We can stay in the same state\<close>
  and the \<open>(default)\<close> successors of the class documentation say.  The code pushes the
  coordinate to the state and then leaves the state out of \<open>changed_state_set\<close>: a region
  in state A since index 0, with one black sample \<open>(0, 0)\<close> in its checker, is given another
  black sample at buffer index 1.  No transition fires, and the state of index 0 is gone:
  only the new start state of index 1 is left.
\<close>

theorem state_machine_drops_staying_state:
  "state_machine [\<lparr>idx = 0, name = A, chromaticity_checker = [(0, 0)]\<rparr>] (0, 0) 0 1
   = [\<lparr>idx = 1, name = A, chromaticity_checker = [(0, 0)]\<rparr>]"
  by (simp add: state_machine_def state_machine_body_def should_transition_def
      is_above_threshold_def chromaticity_distance_def push_def MAX_CHROMATICITY_DIFF_def
      MAX_RED_PERCENTAGE_def add_start_state_def set_add_def new_State_def)

section \<open>Properties of the buffer\<close>

lemma add_frame_body_Inr:
  assumes "add_frame_body (h, w, px) i j b = Inr b'"
  shows "b' = b\<lparr>regions := (regions b)((i, j) := stepped b (h, w, px) (i, j)),
               red_flash_timestamps := red_flash_timestamps b @ stamp b (h, w, px) i j\<rparr>"
  using assms
  by (auto simp: add_frame_body_def stepped_def stamp_def Let_def split: if_splits prod.splits)

lemma add_frame_body_ok:
  assumes "i < h" "j < w" "frame_rate b \<noteq> 0"
  shows "\<exists>b'. add_frame_body (h, w, px) i j b = Inr b'"
  using assms
  by (auto simp: add_frame_body_def Let_def split: if_splits prod.splits)


lemma stepped_cong:
  "regions b1 p = regions b p \<Longrightarrow> buf_idx b1 = buf_idx b \<Longrightarrow> stepped b1 frame p = stepped b frame p"
  by (simp add: stepped_def)

lemma stamp_cong:
  "regions b1 (i, j) = regions b (i, j) \<Longrightarrow> buf_idx b1 = buf_idx b \<Longrightarrow> frame_rate b1 = frame_rate b
   \<Longrightarrow> stamp b1 frame i j = stamp b frame i j"
  using stepped_cong[of b1 "(i, j)" b frame] by (simp add: stamp_def)


lemma body_fields:
  assumes "add_frame_body frame i j b = Inr b1"
  shows "buf_idx b1 = buf_idx b" "frame_rate b1 = frame_rate b" "num_frames b1 = num_frames b"
    "buf_n b1 = buf_n b"
    "regions b1 = (regions b)((i, j) := stepped b frame (i, j))"
    "red_flash_timestamps b1 = red_flash_timestamps b @ stamp b frame i j"
proof -
  obtain h w px where fr: "frame = (h, w, px)" by (cases frame) auto
  have b1_eq: "b1 = b\<lparr>regions := (regions b)((i, j) := stepped b frame (i, j)),
               red_flash_timestamps := red_flash_timestamps b @ stamp b frame i j\<rparr>"
    using add_frame_body_Inr assms fr by blast
  show "buf_idx b1 = buf_idx b" "frame_rate b1 = frame_rate b" "num_frames b1 = num_frames b"
    "buf_n b1 = buf_n b"
    "regions b1 = (regions b)((i, j) := stepped b frame (i, j))"
    "red_flash_timestamps b1 = red_flash_timestamps b @ stamp b frame i j"
    by (simp_all add: b1_eq)
qed


lemma inner_loop:
  assumes "for_loop js (\<lambda>j. add_frame_body frame i j) b = Inr b'" "distinct js"
  shows "buf_idx b' = buf_idx b \<and> frame_rate b' = frame_rate b \<and> num_frames b' = num_frames b
    \<and> buf_n b' = buf_n b
    \<and> regions b' = (\<lambda>p. if fst p = i \<and> snd p \<in> set js then stepped b frame p else regions b p)
    \<and> red_flash_timestamps b' = red_flash_timestamps b @ concat (map (stamp b frame i) js)"
  using assms
proof (induction js arbitrary: b)
  case Nil
  then show ?case by simp
next
  case (Cons j js)
  from Cons.prems obtain b1 where b1: "add_frame_body frame i j b = Inr b1"
    and rest: "for_loop js (\<lambda>j. add_frame_body frame i j) b1 = Inr b'"
    by (auto split: sum.splits)
  note f = body_fields[OF b1]
  have d: "distinct js" "j \<notin> set js" using Cons.prems by auto
  note ih = Cons.IH[OF rest d(1)]
  have s1: "stepped b1 frame p = stepped b frame p" if "p \<noteq> (i, j)" for p
    using that by (intro stepped_cong) (simp_all add: f)
  have s2: "stamp b1 frame i j' = stamp b frame i j'" if "j' \<in> set js" for j'
    using that d(2) by (intro stamp_cong) (auto simp: f)
  have r: "regions b' = (\<lambda>p. if fst p = i \<and> snd p \<in> set (j # js) then stepped b frame p else regions b p)"
  proof (rule ext)
    fix p :: "nat \<times> nat"
    show "regions b' p = (if fst p = i \<and> snd p \<in> set (j # js) then stepped b frame p else regions b p)"
    proof (cases "p = (i, j)")
      case True
      then show ?thesis using ih d(2) by (simp add: f)
    next
      case False
      then show ?thesis using ih s1[OF False] by (cases p) (auto simp: f)
    qed
  qed
  have t: "red_flash_timestamps b' = red_flash_timestamps b @ concat (map (stamp b frame i) (j # js))"
    using ih s2 by (simp add: f cong: map_cong)
  show ?case using ih r t by (simp add: f)
qed

lemma row_stamps_cong:
  assumes "\<And>j. j < buf_n b \<Longrightarrow> regions b1 (i, j) = regions b (i, j)" "buf_idx b1 = buf_idx b"
    "frame_rate b1 = frame_rate b" "buf_n b1 = buf_n b"
  shows "row_stamps b1 frame i = row_stamps b frame i"
proof -
  have "map (stamp b1 frame i) [0..<buf_n b] = map (stamp b frame i) [0..<buf_n b]"
    by (rule map_cong[OF refl], rule stamp_cong) (simp_all add: assms)
  then show ?thesis unfolding row_stamps_def assms(4) by (rule arg_cong)
qed

lemma outer_loop:
  assumes "for_loop is (\<lambda>i. for_loop [0..<buf_n b] (\<lambda>j. add_frame_body frame i j)) b = Inr b'"
    "distinct is"
  shows "buf_idx b' = buf_idx b \<and> frame_rate b' = frame_rate b \<and> num_frames b' = num_frames b
    \<and> buf_n b' = buf_n b
    \<and> regions b' = (\<lambda>p. if fst p \<in> set is \<and> snd p < buf_n b then stepped b frame p else regions b p)
    \<and> red_flash_timestamps b' = red_flash_timestamps b @ concat (map (row_stamps b frame) is)"
  using assms
proof (induction "is" arbitrary: b)
  case Nil
  then show ?case by simp
next
  case (Cons i "is")
  from Cons.prems obtain b1 where b1: "for_loop [0..<buf_n b] (\<lambda>j. add_frame_body frame i j) b = Inr b1"
    and rest: "for_loop is (\<lambda>i. for_loop [0..<buf_n b] (\<lambda>j. add_frame_body frame i j)) b1 = Inr b'"
    by (auto split: sum.splits)
  have f: "buf_idx b1 = buf_idx b" "frame_rate b1 = frame_rate b" "num_frames b1 = num_frames b"
    "buf_n b1 = buf_n b"
    "regions b1 = (\<lambda>p. if fst p = i \<and> snd p \<in> set [0..<buf_n b] then stepped b frame p else regions b p)"
    "red_flash_timestamps b1 = red_flash_timestamps b @ row_stamps b frame i"
    using inner_loop[OF b1] by (simp_all add: row_stamps_def)
  have d: "distinct is" "i \<notin> set is" using Cons.prems by auto
  have rest': "for_loop is (\<lambda>i. for_loop [0..<buf_n b1] (\<lambda>j. add_frame_body frame i j)) b1 = Inr b'"
    using rest by (simp add: f)
  note ih = Cons.IH[OF rest' d(1)]
  have s1: "stepped b1 frame p = stepped b frame p" if "fst p \<noteq> i" for p
    using that by (intro stepped_cong) (simp_all add: f)
  have s2: "row_stamps b1 frame i' = row_stamps b frame i'" if "i' \<in> set is" for i'
    using that d(2) by (intro row_stamps_cong) (auto simp: f)
  have r: "regions b' = (\<lambda>p. if fst p \<in> set (i # is) \<and> snd p < buf_n b then stepped b frame p else regions b p)"
  proof (rule ext)
    fix p :: "nat \<times> nat"
    show "regions b' p = (if fst p \<in> set (i # is) \<and> snd p < buf_n b then stepped b frame p else regions b p)"
    proof (cases "fst p = i")
      case True
      then show ?thesis using ih d(2) by (simp add: f)
    next
      case False
      then show ?thesis using ih s1[OF False] by (simp add: f)
    qed
  qed
  have t: "red_flash_timestamps b' = red_flash_timestamps b @ concat (map (row_stamps b frame) (i # is))"
    using ih s2 by (simp add: f cong: map_cong)
  show ?case using ih r t by (simp add: f)
qed


lemma inner_loop_ok:
  assumes "i < h" "\<forall>j\<in>set js. j < w" "frame_rate b \<noteq> 0"
  shows "\<exists>b'. for_loop js (\<lambda>j. add_frame_body (h, w, px) i j) b = Inr b'"
  using assms
proof (induction js arbitrary: b)
  case Nil
  then show ?case by simp
next
  case (Cons j js)
  obtain b1 where b1: "add_frame_body (h, w, px) i j b = Inr b1"
    using add_frame_body_ok[of i h j w b px] Cons.prems by auto
  have "frame_rate b1 \<noteq> 0" using body_fields(2)[OF b1] Cons.prems by simp
  then show ?case using Cons.IH[of b1] Cons.prems b1 by simp
qed

lemma outer_loop_ok:
  assumes "\<forall>i\<in>set is. i < h" "k \<le> w" "frame_rate b \<noteq> 0"
  shows "\<exists>b'. for_loop is (\<lambda>i. for_loop [0..<k] (\<lambda>j. add_frame_body (h, w, px) i j)) b = Inr b'"
  using assms
proof (induction "is" arbitrary: b)
  case Nil
  then show ?case by simp
next
  case (Cons i "is")
  obtain b1 where b1: "for_loop [0..<k] (\<lambda>j. add_frame_body (h, w, px) i j) b = Inr b1"
    using inner_loop_ok[of i h "[0..<k]" w b px] Cons.prems by auto
  have "frame_rate b1 \<noteq> 0" using inner_loop[OF b1] Cons.prems by simp
  then show ?case using Cons.IH[of b1] Cons.prems b1 by simp
qed

text \<open>A frame that covers the grid is admitted, unless the frame rate is 0.\<close>

lemma add_frame_ok:
  assumes "buf_n b \<le> h" "buf_n b \<le> w" "frame_rate b \<noteq> 0"
  shows "\<exists>b'. add_frame b (h, w, px) = Inr b'"
proof -
  obtain b1 where "for_loop [0..<buf_n b]
      (\<lambda>i. for_loop [0..<buf_n b] (\<lambda>j. add_frame_body (h, w, px) i j)) b = Inr b1"
    using outer_loop_ok[of "[0..<buf_n b]" h "buf_n b" w b px] assms by auto
  then show ?thesis by (simp add: add_frame_def Let_def)
qed

text \<open>What an admitted frame does to the buffer.\<close>

lemma add_frame_Inr:
  assumes "add_frame b frame = Inr b'"
  shows "buf_idx b' = buf_idx b + 1" "frame_rate b' = frame_rate b" "num_frames b' = num_frames b"
    "buf_n b' = buf_n b"
    "red_flash_timestamps b' =
       red_flash_timestamps b @ concat (map (row_stamps b frame) [0..<buf_n b])"
    "\<And>i j. i < buf_n b \<Longrightarrow> j < buf_n b \<Longrightarrow> regions b' (i, j) =
       (if buf_idx b + 1 - num_frames b \<ge> 0
        then filter (\<lambda>item. idx item \<noteq> buf_idx b + 1 - num_frames b) (stepped b frame (i, j))
        else stepped b frame (i, j))"
proof -
  from assms obtain b1 where b1: "for_loop [0..<buf_n b]
      (\<lambda>i. for_loop [0..<buf_n b] (\<lambda>j. add_frame_body frame i j)) b = Inr b1"
    by (auto simp: add_frame_def split: sum.splits)
  have f: "buf_idx b1 = buf_idx b" "frame_rate b1 = frame_rate b" "num_frames b1 = num_frames b"
    "buf_n b1 = buf_n b"
    "regions b1 = (\<lambda>p. if fst p \<in> set [0..<buf_n b] \<and> snd p < buf_n b
        then stepped b frame p else regions b p)"
    "red_flash_timestamps b1 =
       red_flash_timestamps b @ concat (map (row_stamps b frame) [0..<buf_n b])"
    using outer_loop[OF b1] by simp_all
  have b': "b' = (if buf_idx b + 1 - num_frames b \<ge> 0
      then remove_frame (b1\<lparr>buf_idx := buf_idx b1 + 1\<rparr>) (buf_idx b + 1 - num_frames b)
      else b1\<lparr>buf_idx := buf_idx b1 + 1\<rparr>)"
    using assms b1 by (auto simp: add_frame_def Let_def f)
  show "buf_idx b' = buf_idx b + 1" "frame_rate b' = frame_rate b" "num_frames b' = num_frames b"
    "buf_n b' = buf_n b"
    "red_flash_timestamps b' =
       red_flash_timestamps b @ concat (map (row_stamps b frame) [0..<buf_n b])"
    by (simp_all add: b' remove_frame_def f)
  show "\<And>i j. i < buf_n b \<Longrightarrow> j < buf_n b \<Longrightarrow> regions b' (i, j) =
       (if buf_idx b + 1 - num_frames b \<ge> 0
        then filter (\<lambda>item. idx item \<noteq> buf_idx b + 1 - num_frames b) (stepped b frame (i, j))
        else stepped b frame (i, j))"
    by (simp add: b' remove_frame_def f)
qed


lemma buffer_okD:
  "buffer_ok b \<Longrightarrow> i < buf_n b \<Longrightarrow> j < buf_n b \<Longrightarrow> s \<in> set (regions b (i, j)) \<Longrightarrow> 0 \<le> idx s"
  by (auto simp: buffer_ok_def list_all_iff)

lemma is_above_threshold_iff:
  "is_above_threshold coordinates other_coord \<longleftrightarrow>
     list_ex (\<lambda>c. (fst c - fst other_coord)\<^sup>2 + (snd c - snd other_coord)\<^sup>2 \<ge> 0.04) coordinates"
proof -
  have "(0.2::real) = sqrt 0.04"
    by (rule real_sqrt_unique[symmetric]) (simp_all add: power2_eq_square)
  then have "\<And>y::real. (0.2 \<le> sqrt y) = (0.04 \<le> y)"
    by (metis real_sqrt_le_iff)
  then show ?thesis
    by (simp add: is_above_threshold_def chromaticity_distance_def MAX_CHROMATICITY_DIFF_def)
qed

lemma flash_idx_iff:
  "\<forall>s\<in>set ss. idx s \<noteq> - 1 \<Longrightarrow> flash_idx ss \<noteq> - 1 \<longleftrightarrow> list_ex (\<lambda>s. name s = E) ss"
  by (induction ss) auto

lemma state_machine_idx:
  "idx ` set (state_machine ss c r i) \<subseteq> insert i (idx ` set ss)"
  using foldl_body_idx[of c r "[]" ss] by (auto simp: state_machine_set)

lemma stepped_idx:
  assumes "buffer_ok b" "i < buf_n b" "j < buf_n b" "s \<in> set (stepped b frame (i, j))"
  shows "0 \<le> idx s"
proof -
  obtain h w px where fr: "frame = (h, w, px)" by (cases frame) auto
  obtain u v r where px: "px i j = (u, v, r)" by (cases "px i j") auto
  have "idx s \<in> insert (buf_idx b) (idx ` set (regions b (i, j)))"
    using assms(4) state_machine_idx[of "regions b (i, j)" "(u, v)" r "buf_idx b"]
    by (auto simp: stepped_def fr px)
  then show ?thesis
    using buffer_okD[OF assms(1-3)] assms(1) by (auto simp: buffer_ok_def)
qed

lemma new_Buffer_ok: "buffer_ok (new_Buffer nf k fr)"
  by (simp add: buffer_ok_def new_Buffer_def list_all_iff)

lemma add_frame_buffer_ok:
  assumes "buffer_ok b" "add_frame b frame = Inr b'"
  shows "buffer_ok b'"
proof -
  note f = add_frame_Inr[OF assms(2)]
  have "0 \<le> idx s" if "i < buf_n b" "j < buf_n b" "s \<in> set (regions b' (i, j))" for i j s
    using that stepped_idx[OF assms(1) that(1,2), of s frame]
    by (auto simp: f(6) split: if_splits)
  moreover have "0 \<le> buf_idx b'" using assms(1) by (simp add: f buffer_ok_def)
  ultimately show ?thesis by (auto simp: buffer_ok_def list_all_iff f)
qed

text \<open>
  C8.  When a frame is admitted, the timestamp list grows by exactly the pairs
  \<open>(i / frame_rate, j / frame_rate)\<close> of the grid positions \<open>(i, j)\<close>, in row-major order,
  whose region holds a state named E after the state machine has run on it; no pair is
  appended for a region without such a state.
\<close>

theorem add_frame_red_flash_timestamps:
  assumes "buffer_ok b" "add_frame b frame = Inr b'"
  shows "red_flash_timestamps b' = red_flash_timestamps b @
     concat (map (\<lambda>i. concat (map (\<lambda>j.
        if list_ex (\<lambda>s. name s = E) (stepped b frame (i, j))
        then [(real i / real_of_int (frame_rate b), real j / real_of_int (frame_rate b))]
        else []) [0..<buf_n b])) [0..<buf_n b])"
proof -
  have st: "stamp b frame i j =
      (if list_ex (\<lambda>s. name s = E) (stepped b frame (i, j))
       then [(real i / real_of_int (frame_rate b), real j / real_of_int (frame_rate b))]
       else [])" if "i < buf_n b" "j < buf_n b" for i j
  proof -
    have "\<forall>s\<in>set (stepped b frame (i, j)). idx s \<noteq> - 1"
      using stepped_idx[OF assms(1) that] by fastforce
    from flash_idx_iff[OF this] show ?thesis by (simp add: stamp_def)
  qed
  have eq: "map (row_stamps b frame) [0..<buf_n b] = map (\<lambda>i. concat (map (\<lambda>j.
        if list_ex (\<lambda>s. name s = E) (stepped b frame (i, j))
        then [(real i / real_of_int (frame_rate b), real j / real_of_int (frame_rate b))]
        else []) [0..<buf_n b])) [0..<buf_n b]"
    unfolding row_stamps_def
    by (intro map_cong refl arg_cong[where f = concat]) (simp add: st)
  show ?thesis by (simp only: add_frame_Inr(5)[OF assms(2)] eq)
qed

text \<open>
  C5, as the code has it.  Let \<open>i\<close> be the buffer's \<open>idx\<close> when a frame is admitted, and
  \<open>W\<close> its \<open>num_frames\<close>.  Afterwards \<open>idx\<close> is \<open>i + 1\<close>, and every region of the grid
  holds the states the state machine left there, without exactly those whose index is
  \<open>i + 1 - W\<close>, when \<open>i + 1 - W \<ge> 0\<close>; when \<open>i + 1 - W < 0\<close> nothing is removed.
\<close>

theorem add_frame_evicts_out_idx:
  assumes "add_frame b frame = Inr b'" "i < buf_n b" "j < buf_n b"
  shows "buf_idx b' = buf_idx b + 1 \<and>
    regions b' (i, j) =
      (if buf_idx b + 1 - num_frames b \<ge> 0
       then filter (\<lambda>s. idx s \<noteq> buf_idx b + 1 - num_frames b) (stepped b frame (i, j))
       else stepped b frame (i, j))"
  using add_frame_Inr(1)[OF assms(1)] add_frame_Inr(6)[OF assms] by simp


lemmas fsm_eval = stepped_def state_machine_def state_machine_body_def should_transition_def
  is_above_threshold_iff push_def MAX_RED_PERCENTAGE_def add_start_state_def set_add_def
  new_State_def state_eq_def power2_eq_square

text \<open>
  C5, as the claim states it, fails.  A buffer of capacity \<open>W = 2\<close> with one region is at
  \<open>idx = 3 > W\<close>; its region holds the start state of index 2 (the buffer \<open>Buffer(2, 1, 30)\<close>
  is in this state after a black, a white and a black frame).  A white frame is admitted.
  The state machine leaves the states D of index 2 and A of index 3.  The claim removes the
  states of index \<open>3 - 2 - 1 = 0\<close> and no state of a larger index; the code removes the state
  of index \<open>3 + 1 - 2 = 2\<close>.
\<close>

theorem add_frame_evicts_counterexample:
  "(3::int) > 2 \<and>
   stepped \<lparr>buf_idx = 3, regions = (\<lambda>_. [\<lparr>idx = 2, name = A, chromaticity_checker = [(0, 0)]\<rparr>]),
       num_frames = 2, buf_n = 1, frame_rate = 30, red_flash_timestamps = []\<rparr>
     (1, 1, \<lambda>_ _. (0.2, 0.47, 0.33)) (0, 0)
   = [\<lparr>idx = 2, name = D, chromaticity_checker = [(0.2, 0.47)]\<rparr>,
      \<lparr>idx = 3, name = A, chromaticity_checker = [(0.2, 0.47)]\<rparr>] \<and>
   (case add_frame
       \<lparr>buf_idx = 3, regions = (\<lambda>_. [\<lparr>idx = 2, name = A, chromaticity_checker = [(0, 0)]\<rparr>]),
         num_frames = 2, buf_n = 1, frame_rate = 30, red_flash_timestamps = []\<rparr>
       (1, 1, \<lambda>_ _. (0.2, 0.47, 0.33)) of
      Inl e \<Rightarrow> False
    | Inr b' \<Rightarrow> regions b' (0, 0) = [\<lparr>idx = 3, name = A, chromaticity_checker = [(0.2, 0.47)]\<rparr>])"
  (is "_ \<and> stepped ?b ?f _ = ?ss \<and> _")
proof -
  have st: "stepped ?b ?f (0, 0) = ?ss"
    by (simp add: fsm_eval)
  obtain b' where b': "add_frame ?b ?f = Inr b'"
    using add_frame_ok[of ?b 1 1] by auto
  have "regions b' (0, 0) =
      (if buf_idx ?b + 1 - num_frames ?b \<ge> 0
       then filter (\<lambda>item. idx item \<noteq> buf_idx ?b + 1 - num_frames ?b) (stepped ?b ?f (0, 0))
       else stepped ?b ?f (0, 0))"
    by (rule add_frame_Inr(6)[OF b']) simp_all
  then have "regions b' (0, 0) = [\<lparr>idx = 3, name = A, chromaticity_checker = [(0.2, 0.47)]\<rparr>]"
    unfolding st by simp
  then show ?thesis unfolding st b' by simp
qed

theorem add_frame_evicts_out_idx_witness:
  "\<exists>b'. add_frame
       \<lparr>buf_idx = 3, regions = (\<lambda>_. [\<lparr>idx = 2, name = A, chromaticity_checker = [(0, 0)]\<rparr>,
                                     \<lparr>idx = 1, name = C, chromaticity_checker = [(0, 0)]\<rparr>]),
         num_frames = 2, buf_n = 1, frame_rate = 30, red_flash_timestamps = []\<rparr>
       (1, 1, \<lambda>_ _. (0.2, 0.47, 0.33)) = Inr b' \<and>
     buf_idx b' = 4 \<and>
     regions b' (0, 0) = [\<lparr>idx = 1, name = E, chromaticity_checker = [(0.2, 0.47)]\<rparr>,
                          \<lparr>idx = 3, name = A, chromaticity_checker = [(0.2, 0.47)]\<rparr>]"
  (is "\<exists>b'. add_frame ?b ?f = _ \<and> _")
proof -
  obtain b' where b': "add_frame ?b ?f = Inr b'"
    using add_frame_ok[of ?b 1 1] by auto
  have st: "stepped ?b ?f (0, 0) =
      [\<lparr>idx = 2, name = D, chromaticity_checker = [(0.2, 0.47)]\<rparr>,
       \<lparr>idx = 1, name = E, chromaticity_checker = [(0.2, 0.47)]\<rparr>,
       \<lparr>idx = 3, name = A, chromaticity_checker = [(0.2, 0.47)]\<rparr>]"
    by (simp add: fsm_eval)
  have "buf_idx b' = buf_idx ?b + 1 \<and> regions b' (0, 0) =
      (if buf_idx ?b + 1 - num_frames ?b \<ge> 0
       then filter (\<lambda>s. idx s \<noteq> buf_idx ?b + 1 - num_frames ?b) (stepped ?b ?f (0, 0))
       else stepped ?b ?f (0, 0))"
    by (rule add_frame_evicts_out_idx[OF b']) simp_all
  then have "buf_idx b' = 4 \<and> regions b' (0, 0) =
      [\<lparr>idx = 1, name = E, chromaticity_checker = [(0.2, 0.47)]\<rparr>,
       \<lparr>idx = 3, name = A, chromaticity_checker = [(0.2, 0.47)]\<rparr>]"
    unfolding st by simp
  then show ?thesis using b' by blast
qed


theorem add_frame_red_flash_timestamps_witness:
  "buffer_ok
     \<lparr>buf_idx = 2,
       regions = (\<lambda>_. [\<lparr>idx = 0, name = C, chromaticity_checker = [(0.175, 0.158)]\<rparr>,
                        \<lparr>idx = 1, name = A, chromaticity_checker = [(0.175, 0.158)]\<rparr>]),
       num_frames = 4, buf_n = 2, frame_rate = 30, red_flash_timestamps = []\<rparr> \<and>
   (\<exists>b'. add_frame
       \<lparr>buf_idx = 2,
         regions = (\<lambda>_. [\<lparr>idx = 0, name = C, chromaticity_checker = [(0.175, 0.158)]\<rparr>,
                          \<lparr>idx = 1, name = A, chromaticity_checker = [(0.175, 0.158)]\<rparr>]),
         num_frames = 4, buf_n = 2, frame_rate = 30, red_flash_timestamps = []\<rparr>
       (2, 2, \<lambda>i j. if i = 1 \<and> j = 1 then (0.45, 0.52, 1) else (0.175, 0.158, 0)) = Inr b' \<and>
     red_flash_timestamps b' = [(1 / 30, 1 / 30)])"
  (is "buffer_ok ?b \<and> (\<exists>b'. add_frame ?b ?f = _ \<and> _)")
proof -
  have ok: "buffer_ok ?b"
    by (simp add: buffer_ok_def numeral_2_eq_2)
  obtain b' where b': "add_frame ?b ?f = Inr b'"
    using add_frame_ok[of ?b 2 2] by auto
  have e: "list_ex (\<lambda>s. name s = E) (stepped ?b ?f (i, j)) \<longleftrightarrow> i = 1 \<and> j = 1" for i j
    by (simp add: fsm_eval)
  have "red_flash_timestamps b' = [(1 / 30, 1 / 30)]"
    using add_frame_red_flash_timestamps[OF ok b'] unfolding e
    by (simp add: numeral_2_eq_2)
  then show ?thesis using ok b' by blast
qed

section \<open>Properties of the viewport geometry\<close>

lemma calc_viewport_closed:
  assumes "0 < H" "sz \<noteq> 0"
  shows "calc_viewport (H, W) sz vd ang =
    Inr \<lceil>sqrt 2 * (vd * tan (ang * pi / 180)) * (sqrt (real (H\<^sup>2 + W\<^sup>2)) / sz)\<rceil>"
proof -
  define g where "g = gcd H W"
  have g0: "0 < g" using assms by (simp add: g_def)
  obtain h w where hw: "H = h * g" "W = w * g"
    unfolding g_def by (metis dvd_def gcd_dvd1 gcd_dvd2 mult.commute)
  have h0: "0 < h" using assms hw by (cases h) auto
  have d: "H div g = h" "W div g = w" using g0 hw by simp_all
  define hyp where "hyp = sqrt (real (h\<^sup>2 + w\<^sup>2))"
  have hyp0: "0 < hyp" unfolding hyp_def using h0 by (simp add: add_pos_nonneg)
  have diag: "sqrt (real (H\<^sup>2 + W\<^sup>2)) = real g * hyp"
  proof -
    have "real (H\<^sup>2 + W\<^sup>2) = (real g)\<^sup>2 * real (h\<^sup>2 + w\<^sup>2)"
      by (simp add: hw power_mult_distrib algebra_simps)
    then show ?thesis by (simp add: hyp_def real_sqrt_mult)
  qed
  have ppcm: "real H / (real h / hyp * sz) = sqrt (real (H\<^sup>2 + W\<^sup>2)) / sz"
    unfolding diag using h0 hyp0 assms by (simp add: hw field_simps)
  have nz: "(real h / hyp * sz = 0) = False" using h0 hyp0 assms by simp
  have Hz: "(H = 0) = False" using assms by simp
  show ?thesis
    unfolding calc_viewport_def Let_def fst_conv snd_conv g_def[symmetric] d hyp_def[symmetric]
      ppcm nz Hz if_False ..
qed

text \<open>
  C9, as the code has it.  Doubling both entries of the resolution and the physical
  diagonal doubles the size of the screen and leaves its pixel density as it was, so the
  side length in pixels of the square viewport is the same (and so is the exception, if
  one is raised).
\<close>

theorem calc_viewport_doubling:
  "calc_viewport (2 * H, 2 * W) (2 * sz) vd ang = calc_viewport (H, W) sz vd ang"
proof (cases "H = 0 \<or> sz = 0")
  case True
  then show ?thesis
    by (auto simp: calc_viewport_def Let_def)
next
  case False
  then have p: "0 < H" "sz \<noteq> 0" "0 < 2 * H" "2 * sz \<noteq> 0" by auto
  have dbl: "sqrt (real ((2 * H)\<^sup>2 + (2 * W)\<^sup>2)) = 2 * sqrt (real (H\<^sup>2 + W\<^sup>2))"
  proof -
    have "real ((2 * H)\<^sup>2 + (2 * W)\<^sup>2) = 2\<^sup>2 * real (H\<^sup>2 + W\<^sup>2)"
      by (simp add: power_mult_distrib)
    then show ?thesis by (simp only: real_sqrt_mult) simp
  qed
  have "sqrt (real ((2 * H)\<^sup>2 + (2 * W)\<^sup>2)) / (2 * sz) = sqrt (real (H\<^sup>2 + W\<^sup>2)) / sz"
    unfolding dbl by simp
  then show ?thesis
    unfolding calc_viewport_closed[OF p(1,2)] calc_viewport_closed[OF p(3,4)] by simp
qed

text \<open>
  C9, as the claim states it, fails.  A square screen of resolution 1 and diagonal 1,
  seen from distance 5 under a viewport angle of 45 degrees, has a square viewport of
  side 10 pixels; so has the screen of resolution 2 and diagonal 2.  The claim asks for
  20, up to the rounding of a ceiling (a difference of at most 1).
\<close>

theorem calc_viewport_doubling_counterexample:
  "calc_viewport (1, 1) 1 5 45 = Inr 10 \<and> calc_viewport (2 * 1, 2 * 1) (2 * 1) 5 45 = Inr 10
   \<and> \<not> \<bar>10 - 2 * (10::int)\<bar> \<le> 1"
proof -
  have t: "tan (45 * pi / 180) = 1"
    using tan_45 by (simp add: field_simps)
  have v1: "sqrt 2 * (5 * tan (45 * pi / 180)) * (sqrt (real (1\<^sup>2 + 1\<^sup>2)) / 1) = 10"
    unfolding t by simp
  have v2: "sqrt 2 * (5 * tan (45 * pi / 180)) * (sqrt (real ((2 * 1)\<^sup>2 + (2 * 1)\<^sup>2)) / (2 * 1)) = 10"
  proof -
    have "sqrt (real ((2 * 1)\<^sup>2 + (2 * 1)\<^sup>2)) = sqrt (2\<^sup>2 * 2)" by simp
    also have "\<dots> = 2 * sqrt 2" by (simp only: real_sqrt_mult) simp
    finally show ?thesis unfolding t by simp
  qed
  have "calc_viewport (1, 1) 1 5 45 = Inr \<lceil>(10::real)\<rceil>"
    unfolding v1[symmetric] by (rule calc_viewport_closed) simp_all
  moreover have "calc_viewport (2 * 1, 2 * 1) (2 * 1) 5 45 = Inr \<lceil>(10::real)\<rceil>"
    unfolding v2[symmetric] by (rule calc_viewport_closed) simp_all
  ultimately show ?thesis by simp
qed

section \<open>Properties of the luminance analyzer\<close>

text \<open>Bounds on the tangent of the default viewport angle of 10 degrees.\<close>

lemma pi_ge_3: "3 \<le> pi"
proof -
  have "sin (pi / 6) \<le> pi / 6" by (rule sin_x_le_x) simp
  then show ?thesis by (simp add: sin_30)
qed

lemma tan_ge_self:
  assumes "0 \<le> x" "x < pi / 2"
  shows "x \<le> tan x"
proof -
  have "tan 0 - 0 \<le> tan x - x"
  proof (rule DERIV_nonneg_imp_nondecreasing[of 0 x "\<lambda>y. tan y - y"])
    show "0 \<le> x" by fact
    show "\<exists>y. DERIV (\<lambda>y. tan y - y) t :> y \<and> 0 \<le> y" if "0 \<le> t" "t \<le> x" for t
    proof -
      have c: "0 < cos t" using that assms by (intro cos_gt_zero_pi) auto
      then have cz: "cos t \<noteq> 0" by simp
      have "DERIV (\<lambda>y. tan y - y) t :> inverse ((cos t)\<^sup>2) - 1"
        by (auto intro!: derivative_eq_intros simp: cz)
      moreover have "(cos t)\<^sup>2 \<le> 1" by (simp add: abs_square_le_1)
      then have "1 \<le> inverse ((cos t)\<^sup>2)"
        using c by (simp add: one_le_inverse)
      ultimately show ?thesis by (intro exI[of _ "inverse ((cos t)\<^sup>2) - 1"]) simp
    qed
  qed
  then show ?thesis by simp
qed

lemma tan_half_le:
  assumes "0 < x" "x < pi / 4"
  shows "tan x \<le> tan (2 * x) / 2"
proof -
  have t0: "0 < tan x" using assms by (intro tan_gt_zero) auto
  have t1: "tan x < 1" using tan_bound_pi2[of x] assms by auto
  have c1: "cos x \<noteq> 0" using cos_gt_zero_pi[of x] assms by auto
  have c2: "cos (2 * x) \<noteq> 0" using cos_gt_zero_pi[of "2 * x"] assms by auto
  have d: "0 < 1 - (tan x)\<^sup>2" using t0 t1 by (simp add: abs_square_less_1)
  have "tan (2 * x) = 2 * tan x / (1 - (tan x)\<^sup>2)" by (rule tan_double[OF c1 c2])
  moreover have "2 * tan x \<le> 2 * tan x / (1 - (tan x)\<^sup>2)"
    using d t0 by (simp add: field_simps)
  ultimately show ?thesis by linarith
qed

lemma tan_pi_18_le: "tan (pi / 18) \<le> 1 / 4"
proof -
  have a: "tan (pi / 8) \<le> 1 / 2"
    using tan_half_le[of "pi / 8"] tan_45 by simp
  have b: "tan (pi / 16) \<le> tan (pi / 8) / 2"
    using tan_half_le[of "pi / 16"] by simp
  have "tan (pi / 18) \<le> tan (pi / 16)"
    by (rule tan_mono_le) (simp_all add: field_simps)
  then show ?thesis using a b by simp
qed

lemma tan_pi_18_ge: "1 / 6 \<le> tan (pi / 18)"
proof -
  have "pi / 18 \<le> tan (pi / 18)" by (rule tan_ge_self) simp_all
  then show ?thesis using pi_ge_3 by simp
qed

text \<open>The tile size for the default screen, and what it makes of the frame.\<close>

lemma diag_le_max:
  fixes H W :: nat
  shows "sqrt (real (H\<^sup>2 + W\<^sup>2)) \<le> sqrt 2 * real (max H W)"
proof -
  have "real (H\<^sup>2 + W\<^sup>2) \<le> 2 * (real (max H W))\<^sup>2"
  proof -
    have "H\<^sup>2 \<le> (max H W)\<^sup>2" "W\<^sup>2 \<le> (max H W)\<^sup>2" by (simp_all add: power_mono)
    then have "H\<^sup>2 + W\<^sup>2 \<le> 2 * (max H W)\<^sup>2" by linarith
    then have "real (H\<^sup>2 + W\<^sup>2) \<le> real (2 * (max H W)\<^sup>2)" by (rule of_nat_mono)
    then show ?thesis by simp
  qed
  then have "sqrt (real (H\<^sup>2 + W\<^sup>2)) \<le> sqrt (2 * (real (max H W))\<^sup>2)"
    by (rule real_sqrt_le_mono)
  then show ?thesis by (simp add: real_sqrt_mult)
qed

lemma default_square_length:
  assumes "0 < H"
  obtains sq where "calc_viewport (H, W) (15 * 2.54) (26 * 2.54) 10 = Inr sq"
    and "1 \<le> sq" and "sq \<le> int (max H W)"
    and "26 / 90 * sqrt 2 * sqrt (real (H\<^sup>2 + W\<^sup>2)) \<le> real_of_int sq"
    and "sq \<le> \<lceil>26 / 60 * sqrt 2 * sqrt (real (H\<^sup>2 + W\<^sup>2))\<rceil>"
proof -
  define t where "t = tan (10 * pi / 180)"
  have t_eq: "t = tan (pi / 18)" by (simp add: t_def)
  have tl: "1 / 6 \<le> t" and tu: "t \<le> 1 / 4"
    using tan_pi_18_ge tan_pi_18_le by (simp_all add: t_eq)
  define dg where "dg = sqrt (real (H\<^sup>2 + W\<^sup>2))"
  have "real H = sqrt ((real H)\<^sup>2)" by simp
  also have "\<dots> \<le> dg" unfolding dg_def by (rule real_sqrt_le_mono) simp
  finally have dg1: "real H \<le> dg" .
  have dg0: "0 < dg" using dg1 assms by simp
  define x where "x = sqrt 2 * (26 * 2.54 * t) * (dg / (15 * 2.54))"
  have x_eq: "x = 26 / 15 * sqrt 2 * t * dg" by (simp add: x_def)
  have cv: "calc_viewport (H, W) (15 * 2.54) (26 * 2.54) 10 = Inr \<lceil>x\<rceil>"
    unfolding x_def dg_def t_def by (rule calc_viewport_closed[OF assms]) simp
  have lo: "26 / 90 * sqrt 2 * dg \<le> x"
  proof -
    have "26 / 15 * sqrt 2 * (1 / 6) * dg \<le> 26 / 15 * sqrt 2 * t * dg"
      using tl dg0 by (intro mult_right_mono mult_left_mono) simp_all
    then show ?thesis unfolding x_eq by simp
  qed
  have hi: "x \<le> 26 / 60 * sqrt 2 * dg"
  proof -
    have "26 / 15 * sqrt 2 * t * dg \<le> 26 / 15 * sqrt 2 * (1 / 4) * dg"
      using tu dg0 by (intro mult_right_mono mult_left_mono) simp_all
    then show ?thesis unfolding x_eq by simp
  qed
  have xpos: "0 < x"
  proof -
    have "0 < 26 / 90 * sqrt 2 * dg" using dg0 by simp
    then show ?thesis using lo by linarith
  qed
  have mx: "x \<le> real (max H W)"
  proof -
    have "26 / 60 * sqrt 2 * dg \<le> 26 / 60 * sqrt 2 * (sqrt 2 * real (max H W))"
      using diag_le_max[of H W] unfolding dg_def by (intro mult_left_mono) simp_all
    also have "\<dots> = 26 / 60 * (sqrt 2 * sqrt 2) * real (max H W)" by (simp only: mult.assoc)
    also have "\<dots> = 52 / 60 * real (max H W)" by simp
    also have "\<dots> \<le> real (max H W)" by simp
    finally show ?thesis using hi by linarith
  qed
  show ?thesis
  proof (rule that[of "\<lceil>x\<rceil>"])
    show "calc_viewport (H, W) (15 * 2.54) (26 * 2.54) 10 = Inr \<lceil>x\<rceil>" by (rule cv)
    show "1 \<le> \<lceil>x\<rceil>" using xpos by linarith
    show "\<lceil>x\<rceil> \<le> int (max H W)" using mx by (simp only: ceiling_le_iff of_int_of_nat_eq)
    show "26 / 90 * sqrt 2 * sqrt (real (H\<^sup>2 + W\<^sup>2)) \<le> real_of_int \<lceil>x\<rceil>"
      using lo unfolding dg_def by linarith
    show "\<lceil>x\<rceil> \<le> \<lceil>26 / 60 * sqrt 2 * sqrt (real (H\<^sup>2 + W\<^sup>2))\<rceil>"
      using hi unfolding dg_def by (rule ceiling_mono)
  qed
qed

lemma process_dangerous_sections:
  assumes "0 < H"
  obtains S where "1 \<le> S" and "S \<le> max H W"
    and "\<And>fs. process_dangerous H W fs =
      detect_changes (precalculate_luminances (H div S) (W div S) fs) (length fs) S"
proof -
  obtain sq where cv: "calc_viewport (H, W) (15 * 2.54) (26 * 2.54) 10 = Inr sq"
    and sq1: "1 \<le> sq" and sq2: "sq \<le> int (max H W)"
    using default_square_length[OF assms, of W] by metis
  define sections where "sections = max (int H div sq) (int W div sq)"
  have "int (max H W) div sq \<le> sections"
    unfolding sections_def by (cases "H \<le> W") (simp_all add: max_def)
  moreover have "0 < int (max H W) div sq"
    using sq1 sq2 pos_imp_zdiv_pos_iff[of sq "int (max H W)"] by linarith
  ultimately have s1: "1 \<le> sections" by linarith
  have "int H div sq \<le> int H" "int W div sq \<le> int W"
    using sq1 zdiv_mono2[of "int H" 1 sq] zdiv_mono2[of "int W" 1 sq] by simp_all
  then have s2: "sections \<le> int (max H W)" unfolding sections_def by (simp add: max_def)
  show ?thesis
  proof (rule that[of "nat sections"])
    show "1 \<le> nat sections" using s1 by simp
    show "nat sections \<le> max H W" using s2 by simp
    show "process_dangerous H W fs =
      detect_changes (precalculate_luminances (H div nat sections) (W div nat sections) fs)
        (length fs) (nat sections)" for fs
      unfolding process_dangerous_def cv using sq1 s1
      by (simp add: Let_def sections_def[symmetric])
  qed
qed

lemma process_dangerous_1x1:
  "process_dangerous 1 1 fs = detect_changes (precalculate_luminances 1 1 fs) (length fs) 1"
proof -
  obtain S where "1 \<le> S" "S \<le> max (1::nat) 1"
    and p: "\<And>fs. process_dangerous 1 1 fs =
      detect_changes (precalculate_luminances (1 div S) (1 div S) fs) (length fs) S"
    using process_dangerous_sections[of 1 1] by (metis zero_less_one)
  then have "S = 1" by simp
  then show ?thesis using p by simp
qed


lemma for_loop_inv:
  assumes "\<And>i s. i \<in> set xs \<Longrightarrow> P s \<Longrightarrow> \<exists>s'. body i s = Inr s' \<and> P s'" "P s"
  shows "\<exists>s'. for_loop xs body s = Inr s' \<and> P s'"
  using assms
proof (induction xs arbitrary: s)
  case Nil
  then show ?case by simp
next
  case (Cons x xs)
  obtain s1 where s1: "body x s = Inr s1" "P s1"
    using Cons.prems(1)[of x s] Cons.prems(2) by auto
  have "\<exists>s'. for_loop xs body s1 = Inr s' \<and> P s'"
    by (rule Cons.IH) (use Cons.prems(1) s1 in auto)
  then show ?case using s1 by simp
qed

lemma opposing_same: "\<not> opposing a a"
  by (simp add: opposing_def luminance_threshold_def split: option.splits)

text \<open>When every frame has the same luminances, the scan counts nothing.\<close>

lemma detect_changes_identical:
  assumes same: "\<And>f f' r c. f < n \<Longrightarrow> f' < n \<Longrightarrow> lum f r c = lum f' r c"
  shows "detect_changes lum n S = Inr 0"
proof -
  define P0 where "P0 = (\<lambda>s::scan. num_flashes s = (\<lambda>_. 0))"
  define P1 where "P1 = (\<lambda>s::scan. P0 s \<and> frame_idx s < n)"
  define P2 where "P2 = (\<lambda>s::scan. P1 s \<and> future_frame s < n)"
  define P3 where "P3 = (\<lambda>s::scan. P2 s \<and> row s < S)"
  have body: "\<exists>s'. scan_body lum n S (s\<lparr>col := c\<rparr>) = Inr s' \<and> P3 s'"
    if "c \<in> set [0..<S]" "P3 s" for c s
  proof -
    have "lum (frame_idx s) (row s) c = lum (future_frame s) (row s) c"
      using that by (intro same) (simp_all add: P3_def P2_def P1_def)
    then have "scan_body lum n S (s\<lparr>col := c\<rparr>) = Inr (s\<lparr>col := c\<rparr>)"
      using that by (simp add: scan_body_def opposing_same P3_def P2_def P1_def)
    then show ?thesis using that by (simp add: P3_def P2_def P1_def P0_def)
  qed
  have cols: "\<exists>s'. for_loop [0..<S] (\<lambda>c s4. scan_body lum n S (s4\<lparr>col := c\<rparr>)) (s\<lparr>row := r\<rparr>)
        = Inr s' \<and> P2 s'"
    if "r \<in> set [0..<S]" "P2 s" for r s
  proof -
    have "P3 (s\<lparr>row := r\<rparr>)" using that by (simp add: P3_def P2_def P1_def P0_def)
    have "\<exists>s'. for_loop [0..<S] (\<lambda>c s4. scan_body lum n S (s4\<lparr>col := c\<rparr>)) (s\<lparr>row := r\<rparr>)
        = Inr s' \<and> P3 s'"
      by (rule for_loop_inv[where P = P3]) (use body \<open>P3 (s\<lparr>row := r\<rparr>)\<close> in auto)
    then show ?thesis by (auto simp: P3_def)
  qed
  have rows: "\<exists>s'. for_loop [0..<S] (\<lambda>r s3.
          for_loop [0..<S] (\<lambda>c s4. scan_body lum n S (s4\<lparr>col := c\<rparr>)) (s3\<lparr>row := r\<rparr>))
        (s\<lparr>future_frame := j\<rparr>) = Inr s' \<and> P1 s'"
    if "j \<in> set [i + 1..<n]" "P1 s" for i j s
  proof -
    have "P2 (s\<lparr>future_frame := j\<rparr>)" using that by (simp add: P2_def P1_def P0_def)
    have "\<exists>s'. for_loop [0..<S] (\<lambda>r s3.
          for_loop [0..<S] (\<lambda>c s4. scan_body lum n S (s4\<lparr>col := c\<rparr>)) (s3\<lparr>row := r\<rparr>))
        (s\<lparr>future_frame := j\<rparr>) = Inr s' \<and> P2 s'"
      by (rule for_loop_inv[where P = P2]) (use cols \<open>P2 (s\<lparr>future_frame := j\<rparr>)\<close> in auto)
    then show ?thesis by (auto simp: P2_def)
  qed
  have futures: "\<exists>s'. (let s1 = s\<lparr>frame_idx := i\<rparr> in
        for_loop [frame_idx s1 + 1..<n] (\<lambda>j s2.
          for_loop [0..<S] (\<lambda>r s3.
            for_loop [0..<S] (\<lambda>c s4. scan_body lum n S (s4\<lparr>col := c\<rparr>)) (s3\<lparr>row := r\<rparr>))
          (s2\<lparr>future_frame := j\<rparr>)) s1) = Inr s' \<and> P0 s'"
    if "i \<in> set [0..<n]" "P0 s" for i s
  proof -
    have "P1 (s\<lparr>frame_idx := i\<rparr>)" using that by (simp add: P1_def P0_def)
    have "\<exists>s'. for_loop [i + 1..<n] (\<lambda>j s2.
          for_loop [0..<S] (\<lambda>r s3.
            for_loop [0..<S] (\<lambda>c s4. scan_body lum n S (s4\<lparr>col := c\<rparr>)) (s3\<lparr>row := r\<rparr>))
          (s2\<lparr>future_frame := j\<rparr>)) (s\<lparr>frame_idx := i\<rparr>) = Inr s' \<and> P1 s'"
      by (rule for_loop_inv[where P = P1]) (use rows[of _ i] \<open>P1 (s\<lparr>frame_idx := i\<rparr>)\<close> in auto)
    then show ?thesis by (auto simp: P1_def Let_def)
  qed
  have "P0 \<lparr>frame_idx = 0, future_frame = 0, row = 0, col = 0, num_flashes = (\<lambda>_. 0)\<rparr>"
    by (simp add: P0_def)
  then have "\<exists>s'. for_loop [0..<n] (\<lambda>i s0.
             let s1 = s0\<lparr>frame_idx := i\<rparr> in
             for_loop [frame_idx s1 + 1..<n] (\<lambda>j s2.
               for_loop [0..<S] (\<lambda>r s3.
                 for_loop [0..<S] (\<lambda>c s4. scan_body lum n S (s4\<lparr>col := c\<rparr>))
                 (s3\<lparr>row := r\<rparr>))
               (s2\<lparr>future_frame := j\<rparr>))
             s1)
           \<lparr>frame_idx = 0, future_frame = 0, row = 0, col = 0, num_flashes = (\<lambda>_. 0)\<rparr> = Inr s'
         \<and> P0 s'"
    by (intro for_loop_inv[where P = P0] futures) auto
  then obtain s' where "for_loop [0..<n] (\<lambda>i s0.
             let s1 = s0\<lparr>frame_idx := i\<rparr> in
             for_loop [frame_idx s1 + 1..<n] (\<lambda>j s2.
               for_loop [0..<S] (\<lambda>r s3.
                 for_loop [0..<S] (\<lambda>c s4. scan_body lum n S (s4\<lparr>col := c\<rparr>))
                 (s3\<lparr>row := r\<rparr>))
               (s2\<lparr>future_frame := j\<rparr>))
             s1)
           \<lparr>frame_idx = 0, future_frame = 0, row = 0, col = 0, num_flashes = (\<lambda>_. 0)\<rparr> = Inr s'"
    and "P0 s'" by blast
  moreover have "np_max S (\<lambda>_. 0) = 0"
  proof -
    have "foldl max (0::nat) (map (\<lambda>_. 0) xs) = 0" for xs :: "(nat \<times> nat) list"
      by (induction xs) simp_all
    then show ?thesis by (simp add: np_max_def)
  qed
  ultimately show ?thesis by (simp add: detect_changes_def P0_def)
qed

text \<open>
  C7.  On a window of \<open>n\<close> copies of one frame the luminance analyzer returns 0, for every
  frame that has at least one row of pixels (without one the viewport computation raises).
\<close>

theorem process_dangerous_identical_frames:
  assumes "0 < height"
  shows "process_dangerous height width (replicate n F) = Inr 0"
proof -
  obtain S where p: "\<And>fs. process_dangerous height width fs =
      detect_changes (precalculate_luminances (height div S) (width div S) fs) (length fs) S"
    using process_dangerous_sections[OF assms] by metis
  have "detect_changes (precalculate_luminances (height div S) (width div S) (replicate n F)) n S = Inr 0"
    by (rule detect_changes_identical) (simp add: precalculate_luminances_def)
  then show ?thesis by (simp add: p)
qed

theorem process_dangerous_identical_frames_witness:
  "process_dangerous 4 4 (replicate 3 (\<lambda>_ _. (0, 128, 0))) = Inr 0"
  using process_dangerous_identical_frames[of 4 4 3 "\<lambda>_ _. (0, 128, 0)"] by simp

text \<open>
  C2.  The claim says that after a counted transition at the frame pair \<open>(i, j)\<close> the scan
  goes on from \<open>(j, j + 1)\<close>, as the comment \<open>skip to next relevant frame\<close> and the
  assignments to the four loop variables say.  The assignments do not move the \<open>for\<close>
  loops: the outer loop takes up its own range again, and a frame pair is scanned and
  counted a second time.  A window of five one-pixel frames of luminance 0, 255, 0, 0, 0
  has the two opposing transitions \<open>(0, 1)\<close> and \<open>(1, 2)\<close>; the skip-ahead discipline
  counts 2, and \<open>process_dangerous\<close> returns 3, which reaches the threshold of 3 flashes.
\<close>

theorem process_dangerous_counts_pair_twice:
  "process_dangerous 1 1
     [\<lambda>_ _. (0, 0, 0), \<lambda>_ _. (0, 255, 0), \<lambda>_ _. (0, 0, 0), \<lambda>_ _. (0, 0, 0), \<lambda>_ _. (0, 0, 0)]
   = Inr 3 \<and>
   skip_ahead_count (precalculate_luminances 1 1
     [\<lambda>_ _. (0, 0, 0), \<lambda>_ _. (0, 255, 0), \<lambda>_ _. (0, 0, 0), \<lambda>_ _. (0, 0, 0), \<lambda>_ _. (0, 0, 0)])
     5 1 = 2"
proof -
  define fs :: "frame list" where
    "fs = [\<lambda>_ _. (0, 0, 0), \<lambda>_ _. (0, 255, 0), \<lambda>_ _. (0, 0, 0), \<lambda>_ _. (0, 0, 0), \<lambda>_ _. (0, 0, 0)]"
  have len: "length fs = 5" by (simp add: fs_def)
  have dc: "detect_changes (precalculate_luminances 1 1 fs) 5 1 = Inr 3"
    unfolding fs_def by code_simp
  have sk: "skip_ahead_count (precalculate_luminances 1 1 fs) 5 1 = 2"
    unfolding fs_def by code_simp
  have "process_dangerous 1 1 fs = Inr 3"
    unfolding process_dangerous_1x1 len by (rule dc)
  then show ?thesis using sk unfolding fs_def by (rule conjI)
qed

text \<open>Windows of \<open>4 \<times> 4\<close> frames: one tile, the whole frame.\<close>

lemma process_dangerous_4x4:
  "process_dangerous 4 4 fs = detect_changes (precalculate_luminances 4 4 fs) (length fs) 1"
proof -
  obtain sq where cv: "calc_viewport (4, 4) (15 * 2.54) (26 * 2.54) 10 = Inr sq"
    and lo: "26 / 90 * sqrt 2 * sqrt (real ((4::nat)\<^sup>2 + (4::nat)\<^sup>2)) \<le> real_of_int sq"
    and hi: "sq \<le> \<lceil>26 / 60 * sqrt 2 * sqrt (real ((4::nat)\<^sup>2 + (4::nat)\<^sup>2))\<rceil>"
    using default_square_length[of 4 4] by (metis zero_less_numeral)
  have "sqrt 2 * sqrt (real ((4::nat)\<^sup>2 + (4::nat)\<^sup>2)) = sqrt (2 * 32)"
    by (simp only: real_sqrt_mult[symmetric]) simp
  also have "\<dots> = 8" using real_sqrt_abs[of 8] by simp
  finally have d: "sqrt 2 * sqrt (real ((4::nat)\<^sup>2 + (4::nat)\<^sup>2)) = 8" .
  have "26 / 90 * (sqrt 2 * sqrt (real ((4::nat)\<^sup>2 + (4::nat)\<^sup>2))) \<le> real_of_int sq"
    using lo by (simp only: mult.assoc)
  then have "2 < real_of_int sq" unfolding d by simp
  then have sq3: "3 \<le> sq" by linarith
  have "sq \<le> \<lceil>26 / 60 * (sqrt 2 * sqrt (real ((4::nat)\<^sup>2 + (4::nat)\<^sup>2)))\<rceil>"
    using hi by (simp only: mult.assoc)
  then have "sq \<le> \<lceil>(26 / 60 * 8 :: real)\<rceil>" unfolding d .
  also have "\<dots> = 4" by (simp add: ceiling_eq_iff)
  finally have sq4: "sq \<le> 4" .
  have "sq = 3 \<or> sq = 4" using sq3 sq4 by linarith
  then have s: "max (int 4 div sq) (int 4 div sq) = 1" by auto
  show ?thesis
    unfolding process_dangerous_def cv using sq3 s by (simp add: Let_def)
qed



lemma scan_body_cong:
  assumes "\<And>f r c. f < n \<Longrightarrow> r < S \<Longrightarrow> c < S \<Longrightarrow> lum f r c = lum' f r c"
  shows "scan_body lum n S = scan_body lum' n S"
  by (rule ext) (simp add: scan_body_def assms)

lemma detect_changes_cong:
  assumes "\<And>f r c. f < n \<Longrightarrow> r < S \<Longrightarrow> c < S \<Longrightarrow> lum f r c = lum' f r c"
  shows "detect_changes lum n S = detect_changes lum' n S"
proof -
  have e: "scan_body lum n S = scan_body lum' n S" by (rule scan_body_cong) (rule assms)
  show ?thesis by (simp only: detect_changes_def e)
qed

lemma concat_replicate_replicate:
  "concat (replicate m (replicate n p)) = replicate (m * n) p"
  by (induction m) (simp_all add: replicate_add)

lemma slice_const:
  "slice (\<lambda>_ _. p) y1 y2 x1 x2 = replicate ((y2 - y1) * (x2 - x1)) p"
  by (simp add: slice_def map_replicate_const concat_replicate_replicate)

lemma luminance_const:
  assumes "0 < h" "0 < w"
  shows "calculate_average_luminance
      (slice (\<lambda>_ _. p) (r * h) ((r + 1) * h) (c * w) ((c + 1) * w))
    = Some (real (unat (fst (snd p))))"
proof -
  have "0 < h * w" using assms by simp
  then show ?thesis
    by (simp add: slice_const calculate_average_luminance_def map_replicate_const
        sum_list_replicate)
qed

text \<open>
  A window of frames of one colour each: the scan sees the lightness of the frames only.
\<close>

lemma process_dangerous_4x4_const:
  assumes "fs = map (\<lambda>p _ _. p) ps" "length ps = n"
  shows "process_dangerous 4 4 fs =
    detect_changes (\<lambda>k _ _. Some (real (unat (fst (snd (ps ! k)))))) n 1"
proof -
  have "detect_changes (precalculate_luminances 4 4 (map (\<lambda>p _ _. p) ps)) n 1 =
      detect_changes (\<lambda>k _ _. Some (real (unat (fst (snd (ps ! k)))))) n 1"
  proof (rule detect_changes_cong)
    fix f r c assume "f < n"
    then show "precalculate_luminances 4 4 (map (\<lambda>p _ _. p) ps) f r c =
        Some (real (unat (fst (snd (ps ! f)))))"
      using luminance_const[of 4 4 "ps ! f" r c] assms(2)
      by (simp add: precalculate_luminances_def)
  qed
  then show ?thesis unfolding process_dangerous_4x4 assms(1) using assms(2) by simp
qed

lemma window_bwbw:
  "process_dangerous 4 4
     [\<lambda>_ _. (0, 0, 0), \<lambda>_ _. (0, 255, 0), \<lambda>_ _. (0, 0, 0), \<lambda>_ _. (0, 255, 0)] = Inr 3"
proof -
  have "process_dangerous 4 4
     [\<lambda>_ _. (0, 0, 0), \<lambda>_ _. (0, 255, 0), \<lambda>_ _. (0, 0, 0), \<lambda>_ _. (0, 255, 0)] =
    detect_changes (\<lambda>k _ _. Some (real (unat (fst (snd
      (([(0, 0, 0), (0, 255, 0), (0, 0, 0), (0, 255, 0)] :: pixel list) ! k)))))) 4 1"
    by (rule process_dangerous_4x4_const) simp_all
  also have "\<dots> = Inr 3" by code_simp
  finally show ?thesis .
qed

lemma window_wbww:
  "process_dangerous 4 4
     [\<lambda>_ _. (0, 255, 0), \<lambda>_ _. (0, 0, 0), \<lambda>_ _. (0, 255, 0), \<lambda>_ _. (0, 255, 0)] = Inr 3"
proof -
  have "process_dangerous 4 4
     [\<lambda>_ _. (0, 255, 0), \<lambda>_ _. (0, 0, 0), \<lambda>_ _. (0, 255, 0), \<lambda>_ _. (0, 255, 0)] =
    detect_changes (\<lambda>k _ _. Some (real (unat (fst (snd
      (([(0, 255, 0), (0, 0, 0), (0, 255, 0), (0, 255, 0)] :: pixel list) ! k)))))) 4 1"
    by (rule process_dangerous_4x4_const) simp_all
  also have "\<dots> = Inr 3" by code_simp
  finally show ?thesis .
qed

lemma window_bwww:
  "process_dangerous 4 4
     [\<lambda>_ _. (0, 0, 0), \<lambda>_ _. (0, 255, 0), \<lambda>_ _. (0, 255, 0), \<lambda>_ _. (0, 255, 0)] = Inr 1"
proof -
  have "process_dangerous 4 4
     [\<lambda>_ _. (0, 0, 0), \<lambda>_ _. (0, 255, 0), \<lambda>_ _. (0, 255, 0), \<lambda>_ _. (0, 255, 0)] =
    detect_changes (\<lambda>k _ _. Some (real (unat (fst (snd
      (([(0, 0, 0), (0, 255, 0), (0, 255, 0), (0, 255, 0)] :: pixel list) ! k)))))) 4 1"
    by (rule process_dangerous_4x4_const) simp_all
  also have "\<dots> = Inr 1" by code_simp
  finally show ?thesis .
qed

lemma window_wwww:
  "process_dangerous 4 4
     [\<lambda>_ _. (0, 255, 0), \<lambda>_ _. (0, 255, 0), \<lambda>_ _. (0, 255, 0), \<lambda>_ _. (0, 255, 0)] = Inr 0"
proof -
  have "process_dangerous 4 4
     [\<lambda>_ _. (0, 255, 0), \<lambda>_ _. (0, 255, 0), \<lambda>_ _. (0, 255, 0), \<lambda>_ _. (0, 255, 0)] =
    detect_changes (\<lambda>k _ _. Some (real (unat (fst (snd
      (([(0, 255, 0), (0, 255, 0), (0, 255, 0), (0, 255, 0)] :: pixel list) ! k)))))) 4 1"
    by (rule process_dangerous_4x4_const) simp_all
  also have "\<dots> = Inr 0" by code_simp
  finally show ?thesis .
qed

section \<open>Properties of the floating-point rounding\<close>

text \<open>
  The rounding is monotone, odd, and leaves a double as it is; in a binade it is the
  rounding of the significand.
\<close>

lemma floor_log2_iff:
  "0 < x \<Longrightarrow> \<lfloor>log 2 x\<rfloor> = e \<longleftrightarrow> 2 powi e \<le> x \<and> x < 2 powi (e + 1)"
  using floor_log_eq_powr_iff[of x 2 e] powr_real_of_int'[of 2 e] powr_real_of_int'[of 2 "e + 1"]
  by simp

lemma binade:
  assumes "0 < x"
  shows "2 powi \<lfloor>log 2 x\<rfloor> \<le> x" "x < 2 powi (\<lfloor>log 2 x\<rfloor> + 1)"
  using floor_log2_iff[OF assms, of "\<lfloor>log 2 x\<rfloor>"] by simp_all

lemma rhe_cases: "round_half_even y = \<lfloor>y\<rfloor> \<or> round_half_even y = \<lfloor>y\<rfloor> + 1"
  by (simp add: round_half_even_def Let_def)

lemma rhe_of_int: "round_half_even (of_int n) = n"
  by (simp add: round_half_even_def Let_def)

lemma rhe_mono:
  assumes "y \<le> z"
  shows "round_half_even y \<le> round_half_even z"
proof (cases "\<lfloor>y\<rfloor> = \<lfloor>z\<rfloor>")
  case True
  then show ?thesis using assms by (auto simp: round_half_even_def Let_def)
next
  case False
  then have "\<lfloor>y\<rfloor> + 1 \<le> \<lfloor>z\<rfloor>" using floor_mono[OF assms] by linarith
  then show ?thesis using rhe_cases[of y] rhe_cases[of z] by linarith
qed

lemma rhe_minus: "round_half_even (- y) = - round_half_even y"
proof (cases "y \<in> \<int>")
  case True
  then obtain n where "y = of_int n" by (auto elim: Ints_cases)
  then show ?thesis using rhe_of_int[of n] rhe_of_int[of "- n"] by simp
next
  case False
  then have "y \<noteq> of_int \<lfloor>y\<rfloor>" by (metis Ints_of_int)
  then have "\<lceil>y\<rceil> = \<lfloor>y\<rfloor> + 1" by (simp add: ceiling_altdef)
  then have fl: "\<lfloor>- y\<rfloor> = - \<lfloor>y\<rfloor> - 1" by (simp add: ceiling_def)
  show ?thesis
    unfolding round_half_even_def Let_def fl by auto
qed

lemma quantum_minus: "quantum (- x) = quantum x"
  by (simp add: quantum_def)

lemma round_double_0: "round_double 0 = 0"
  by (simp add: round_double_def)

lemma round_double_minus: "round_double (- x) = - round_double x"
  by (simp add: round_double_def quantum_minus rhe_minus)

lemma quantum_ge: "- 1074 \<le> quantum x"
  by (simp add: quantum_def)

lemma quantum_mono:
  assumes "0 < x" "x \<le> y"
  shows "quantum x \<le> quantum y"
proof -
  have "log 2 x \<le> log 2 y" using assms by simp
  then have "\<lfloor>log 2 x\<rfloor> \<le> \<lfloor>log 2 y\<rfloor>" by (rule floor_mono)
  then show ?thesis using assms by (simp add: quantum_def)
qed

lemma quantum_upper:
  assumes "0 < x"
  shows "x < 2 powi (quantum x + 53)"
proof -
  have "x < 2 powi (\<lfloor>log 2 x\<rfloor> + 1)" by (rule binade[OF assms])
  also have "\<dots> \<le> 2 powi (quantum x + 53)"
    using assms by (intro power_int_increasing) (simp_all add: quantum_def)
  finally show ?thesis .
qed

lemma quantum_lower:
  assumes "0 < x" "- 1074 < quantum x"
  shows "2 powi (quantum x + 52) \<le> x"
proof -
  have "quantum x + 52 = \<lfloor>log 2 x\<rfloor>" using assms by (simp add: quantum_def max_def split: if_splits)
  then show ?thesis using binade(1)[OF assms(1)] by simp
qed

lemma quantum_le_iff:
  assumes "0 < x" "- 1074 \<le> q"
  shows "quantum x \<le> q \<longleftrightarrow> x < 2 powi (q + 53)"
proof
  assume "quantum x \<le> q"
  then have "2 powi (quantum x + 53) \<le> (2::real) powi (q + 53)"
    by (intro power_int_increasing) simp_all
  then show "x < 2 powi (q + 53)" using quantum_upper[OF assms(1)] by linarith
next
  assume a: "x < 2 powi (q + 53)"
  show "quantum x \<le> q"
  proof (rule ccontr)
    assume "\<not> quantum x \<le> q"
    then have q: "q + 1 \<le> quantum x" by simp
    then have "- 1074 < quantum x" using assms(2) by simp
    then have "2 powi (quantum x + 52) \<le> x" by (rule quantum_lower[OF assms(1)])
    moreover have "(2::real) powi (q + 53) \<le> 2 powi (quantum x + 52)"
      using q by (intro power_int_increasing) simp_all
    ultimately show False using a by linarith
  qed
qed

lemma round_double_nonneg:
  assumes "0 \<le> x"
  shows "0 \<le> round_double x"
proof (cases "x = 0")
  case True
  then show ?thesis by (simp add: round_double_0)
next
  case False
  have "0 \<le> x / 2 powi quantum x" using assms by simp
  then have "round_half_even 0 \<le> round_half_even (x / 2 powi quantum x)" by (rule rhe_mono)
  then have "0 \<le> round_half_even (x / 2 powi quantum x)"
    using rhe_of_int[of 0] by simp
  then show ?thesis using False by (simp add: round_double_def)
qed

lemma round_double_upper:
  assumes "0 < x"
  shows "round_double x \<le> 2 powi (quantum x + 53)"
proof -
  define q where "q = quantum x"
  have p: "(0::real) < 2 powi q" by (simp add: zero_less_power_int)
  have "x / 2 powi q \<le> 2 powi (q + 53) / 2 powi q"
    using quantum_upper[OF assms] p unfolding q_def[symmetric]
    by (simp add: divide_right_mono)
  also have "\<dots> = of_int (2 ^ 53)" by (simp add: power_int_add)
  finally have "round_half_even (x / 2 powi q) \<le> round_half_even (of_int (2 ^ 53))"
    by (rule rhe_mono)
  then have "round_half_even (x / 2 powi q) \<le> 2 ^ 53" unfolding rhe_of_int .
  then have "real_of_int (round_half_even (x / 2 powi q)) \<le> 2 ^ 53"
    by (metis of_int_le_iff of_int_numeral of_int_power)
  then have "real_of_int (round_half_even (x / 2 powi q)) * 2 powi q \<le> 2 ^ 53 * 2 powi q"
    using p by (simp add: mult_right_mono)
  also have "\<dots> = 2 powi (q + 53)" by (simp add: power_int_add)
  finally show ?thesis using assms by (simp add: round_double_def q_def)
qed

lemma round_double_lower:
  assumes "0 < x" "- 1074 < quantum x"
  shows "2 powi (quantum x + 52) \<le> round_double x"
proof -
  define q where "q = quantum x"
  have p: "(0::real) < 2 powi q" by (simp add: zero_less_power_int)
  have "2 powi (q + 52) / 2 powi q \<le> x / 2 powi q"
    using quantum_lower[OF assms] p unfolding q_def[symmetric]
    by (simp add: divide_right_mono)
  moreover have "2 powi (q + 52) / 2 powi q = real_of_int (2 ^ 52)" by (simp add: power_int_add)
  ultimately have "round_half_even (of_int (2 ^ 52)) \<le> round_half_even (x / 2 powi q)"
    by (intro rhe_mono) simp
  then have "2 ^ 52 \<le> round_half_even (x / 2 powi q)" unfolding rhe_of_int .
  then have "2 ^ 52 \<le> real_of_int (round_half_even (x / 2 powi q))"
    by (metis of_int_le_iff of_int_numeral of_int_power)
  then have "2 ^ 52 * 2 powi q \<le> real_of_int (round_half_even (x / 2 powi q)) * 2 powi q"
    using p by (simp add: mult_right_mono)
  moreover have "2 ^ 52 * 2 powi q = (2::real) powi (q + 52)" by (simp add: power_int_add)
  ultimately have "2 powi (q + 52) \<le> real_of_int (round_half_even (x / 2 powi q)) * 2 powi q"
    by (simp only:)
  moreover have "round_double x = real_of_int (round_half_even (x / 2 powi q)) * 2 powi q"
    using assms by (simp add: round_double_def q_def)
  ultimately show ?thesis unfolding q_def by (simp only:)
qed

lemma round_double_mono_pos:
  assumes "0 < x" "x \<le> y"
  shows "round_double x \<le> round_double y"
proof (cases "quantum x = quantum y")
  case True
  have p: "(0::real) < 2 powi quantum y" by (simp add: zero_less_power_int)
  have "x / 2 powi quantum y \<le> y / 2 powi quantum y"
    using assms(2) p by (simp add: divide_right_mono)
  then have "round_half_even (x / 2 powi quantum y) \<le> round_half_even (y / 2 powi quantum y)"
    by (rule rhe_mono)
  then have "real_of_int (round_half_even (x / 2 powi quantum y)) * 2 powi quantum y
      \<le> real_of_int (round_half_even (y / 2 powi quantum y)) * 2 powi quantum y"
    using p by (simp add: mult_right_mono)
  then show ?thesis using assms True by (simp add: round_double_def)
next
  case False
  then have lt: "quantum x + 1 \<le> quantum y" using quantum_mono[OF assms] by simp
  have y: "0 < y" using assms by simp
  have "- 1074 < quantum y" using lt quantum_ge[of x] by simp
  then have "2 powi (quantum y + 52) \<le> round_double y" by (rule round_double_lower[OF y])
  moreover have "round_double x \<le> 2 powi (quantum x + 53)" by (rule round_double_upper[OF assms(1)])
  moreover have "(2::real) powi (quantum x + 53) \<le> 2 powi (quantum y + 52)"
    using lt by (intro power_int_increasing) simp_all
  ultimately show ?thesis by linarith
qed

lemma round_double_mono:
  assumes "x \<le> y"
  shows "round_double x \<le> round_double y"
proof -
  consider "0 < x" | "x \<le> 0" "0 \<le> y" | "y < 0" by linarith
  then show ?thesis
  proof cases
    case 1
    then show ?thesis using assms by (rule round_double_mono_pos)
  next
    case 2
    have "0 \<le> round_double (- x)" using 2(1) by (intro round_double_nonneg) simp
    then have "round_double x \<le> 0" by (simp add: round_double_minus)
    then show ?thesis using round_double_nonneg[OF 2(2)] by linarith
  next
    case 3
    have "round_double (- y) \<le> round_double (- x)"
      using 3 assms by (intro round_double_mono_pos) simp_all
    then show ?thesis by (simp add: round_double_minus)
  qed
qed

lemma round_double_exact:
  assumes "quantum (of_int n * 2 powi q) \<le> q"
  shows "round_double (of_int n * 2 powi q) = of_int n * 2 powi q"
proof (cases "n = 0")
  case True
  then show ?thesis by (simp add: round_double_0)
next
  case False
  define k where "k = quantum (of_int n * 2 powi q)"
  define m where "m = nat (q - k)"
  have qk: "q = k + int m" using assms by (simp add: m_def k_def)
  have "real_of_int n * 2 powi q / 2 powi k = real_of_int n * 2 ^ m"
    unfolding qk by (simp add: power_int_add)
  also have "\<dots> = real_of_int (n * 2 ^ m)" by simp
  finally have "round_half_even (real_of_int n * 2 powi q / 2 powi k) = n * 2 ^ m"
    by (simp only: rhe_of_int)
  moreover have "real_of_int (n * 2 ^ m) * 2 powi k = real_of_int n * 2 powi q"
    unfolding qk by (simp add: power_int_add)
  ultimately show ?thesis using False by (simp add: round_double_def k_def[symmetric])
qed

lemma round_double_idem_pos:
  assumes "0 < x"
  shows "round_double (round_double x) = round_double x"
proof -
  define q where "q = quantum x"
  define r where "r = round_half_even (x / 2 powi q)"
  have v: "round_double x = of_int r * 2 powi q"
    using assms by (simp add: round_double_def q_def r_def)
  have p: "(0::real) < 2 powi q" by (simp add: zero_less_power_int)
  have up: "of_int r * 2 powi q \<le> (2::real) powi (q + 53)"
    using round_double_upper[OF assms] unfolding v q_def .
  have nn: "0 \<le> of_int r * (2::real) powi q"
    using round_double_nonneg[of x] assms unfolding v by simp
  show ?thesis
  proof (cases "of_int r * 2 powi q = (2::real) powi (q + 53)")
    case True
    have "- 1074 \<le> q" unfolding q_def by (rule quantum_ge)
    then have "quantum (2 powi (q + 53)) \<le> q + 53"
      by (subst quantum_le_iff) (simp_all add: zero_less_power_int power_int_strict_increasing)
    then have "round_double (of_int 1 * 2 powi (q + 53)) = of_int 1 * 2 powi (q + 53)"
      by (intro round_double_exact) simp
    then show ?thesis unfolding v True by simp
  next
    case False
    show ?thesis
    proof (cases "r = 0")
      case True
      then show ?thesis unfolding v by (simp add: round_double_0)
    next
      case r0: False
      have "0 < of_int r * (2::real) powi q" using nn r0 p by (simp add: less_le)
      moreover have "of_int r * 2 powi q < (2::real) powi (q + 53)" using up False by simp
      ultimately have "quantum (of_int r * 2 powi q) \<le> q"
        using quantum_ge[of x] by (subst quantum_le_iff) (simp_all add: q_def)
      then show ?thesis unfolding v by (rule round_double_exact)
    qed
  qed
qed

lemma round_double_idem: "round_double (round_double x) = round_double x"
proof -
  consider "0 < x" | "x = 0" | "x < 0" by linarith
  then show ?thesis
  proof cases
    case 1
    then show ?thesis by (rule round_double_idem_pos)
  next
    case 2
    then show ?thesis by (simp add: round_double_0)
  next
    case 3
    then have "round_double (round_double (- x)) = round_double (- x)"
      by (intro round_double_idem_pos) simp
    then show ?thesis by (simp add: round_double_minus)
  qed
qed

lemma round_double_of_int:
  assumes "\<bar>n\<bar> < 2 ^ 53"
  shows "round_double (of_int n) = of_int n"
proof (cases "n = 0")
  case True
  then show ?thesis by (simp add: round_double_0)
next
  case False
  have "\<bar>real_of_int n\<bar> < 2 ^ 53"
    using assms by (metis of_int_abs of_int_less_iff of_int_numeral of_int_power)
  then have "quantum \<bar>real_of_int n\<bar> \<le> 0"
    using False by (subst quantum_le_iff) simp_all
  then have "quantum (of_int n * 2 powi 0) \<le> 0" by (simp add: quantum_def)
  then have "round_double (of_int n * 2 powi 0) = of_int n * 2 powi 0"
    by (rule round_double_exact)
  then show ?thesis by simp
qed


lemma round_double_eval:
  assumes "2 powi e \<le> \<bar>x\<bar>" "\<bar>x\<bar> < 2 powi (e + 1)" "- 1022 \<le> e"
  shows "round_double x = of_int (round_half_even (x / 2 powi (e - 52))) * 2 powi (e - 52)"
proof -
  have "(0::real) < 2 powi e" by (simp add: zero_less_power_int)
  then have pos: "0 < \<bar>x\<bar>" using assms(1) by linarith
  have "\<lfloor>log 2 \<bar>x\<bar>\<rfloor> = e" using assms(1,2) by (simp only: floor_log2_iff[OF pos])
  then have "quantum x = e - 52" using assms(3) by (simp add: quantum_def)
  then show ?thesis using pos by (simp add: round_double_def)
qed

lemma round_double_eval_frac:
  assumes "2 powi e \<le> \<bar>x\<bar>" "\<bar>x\<bar> < 2 powi (e + 1)" "- 1022 \<le> e" "e \<le> 52"
  shows "round_double x = of_int (round_half_even (x * 2 ^ nat (52 - e))) / 2 ^ nat (52 - e)"
proof -
  have "(2::real) powi (e - 52) = 1 / 2 ^ nat (52 - e)"
    using assms(4) by (simp add: power_int_def field_simps)
  then show ?thesis unfolding round_double_eval[OF assms(1-3)] by simp
qed

section \<open>Properties of the orchestrator\<close>

lemma py_int_nonneg: "0 \<le> x \<Longrightarrow> py_int x = \<lfloor>x\<rfloor>"
  by (simp add: py_int_def)

lemma frames_per_second_floor:
  assumes "0 \<le> fps cap" "0 \<le> speed"
  shows "frames_per_second_of cap speed =
    \<lfloor>round_double (round_double (real_of_int \<lfloor>fps cap\<rfloor>) * speed)\<rfloor>"
proof -
  have fr: "frame_rate_of cap = \<lfloor>fps cap\<rfloor>"
    using assms(1) by (simp add: frame_rate_of_def py_int_nonneg)
  have "0 \<le> real_of_int \<lfloor>fps cap\<rfloor>" using assms(1) by simp
  then have "0 \<le> round_double (real_of_int \<lfloor>fps cap\<rfloor>)" by (rule round_double_nonneg)
  then have "0 \<le> round_double (real_of_int \<lfloor>fps cap\<rfloor>) * speed" using assms(2) by simp
  then have "0 \<le> round_double (round_double (real_of_int \<lfloor>fps cap\<rfloor>) * speed)"
    by (rule round_double_nonneg)
  then show ?thesis unfolding frames_per_second_of_def fr by (rule py_int_nonneg)
qed

lemma luminance_step_below:
  assumes "int (length (frame_buffer s)) + 1 < frames_per_second_of cap speed"
  shows "luminance_step cap speed f s =
    Inr (s\<lparr>frame_buffer := frame_buffer s @ [f], frame_counter := frame_counter s + 1\<rparr>)"
  using assms by (simp add: luminance_step_def deque_append_def Let_def)

lemma luminance_step_at:
  assumes "int (length (frame_buffer s)) + 1 = frames_per_second_of cap speed"
  shows "process_dangerous (frame_height cap) (frame_width cap) (frame_buffer s @ [f]) = Inl e
      \<Longrightarrow> luminance_step cap speed f s = Inl e"
    and "process_dangerous (frame_height cap) (frame_width cap) (frame_buffer s @ [f]) = Inr k
      \<Longrightarrow> luminance_step cap speed f s = Inr s'
      \<Longrightarrow> frame_buffer s' = (if k = 0 then [] else tl (frame_buffer s @ [f]))"
proof -
  note n = assms[symmetric]
  show "luminance_step cap speed f s = Inl e"
    if "process_dangerous (frame_height cap) (frame_width cap) (frame_buffer s @ [f]) = Inl e"
    using that by (simp add: luminance_step_def Let_def deque_append_def n)
  show "frame_buffer s' = (if k = 0 then [] else tl (frame_buffer s @ [f]))"
    if "process_dangerous (frame_height cap) (frame_width cap) (frame_buffer s @ [f]) = Inr k"
      and "luminance_step cap speed f s = Inr s'"
    using that
    by (auto simp: luminance_step_def Let_def deque_append_def n skip_enabled_def
        split: if_splits)
qed

text \<open>
  C4, as the code has it.  The window size is \<open>int(frame_rate * speed)\<close> with
  \<open>frame_rate = int(fps)\<close>: for a frame rate that is not negative and a valid speed, the
  floor of the float product of the floor of the frame rate and the speed, \<open>N\<close>.  (When
  the product is beyond the doubles, \<open>int\<close> raises and there is no window.)  It is the
  capacity of the frame deque and the number of frames of every window given to the
  luminance analyzer: a frame that makes fewer than \<open>N\<close> frames is put into the deque and
  nothing else happens; the frame that makes \<open>N\<close> frames has the analyzer run on these
  \<open>N\<close> frames, whose error is the error of the step and whose count decides whether the
  deque is cleared or loses its oldest frame.
\<close>

theorem frames_per_second_truncates:
  assumes "0 \<le> fps cap" "0.2 \<le> speed" "speed \<le> 5"
    and "\<not> double_overflow (round_double (real_of_int \<lfloor>fps cap\<rfloor>) * speed)"
    and "N = \<lfloor>round_double (round_double (real_of_int \<lfloor>fps cap\<rfloor>) * speed)\<rfloor>"
  shows "frames_per_second_of cap speed = N \<and>
    (int (length (frame_buffer s)) + 1 < N \<longrightarrow>
       luminance_step cap speed f s =
         Inr (s\<lparr>frame_buffer := frame_buffer s @ [f], frame_counter := frame_counter s + 1\<rparr>)) \<and>
    (int (length (frame_buffer s)) + 1 = N \<longrightarrow>
       (\<forall>e. process_dangerous (frame_height cap) (frame_width cap) (frame_buffer s @ [f]) = Inl e
          \<longrightarrow> luminance_step cap speed f s = Inl e) \<and>
       (\<forall>k s'. process_dangerous (frame_height cap) (frame_width cap) (frame_buffer s @ [f]) = Inr k
          \<longrightarrow> luminance_step cap speed f s = Inr s'
          \<longrightarrow> frame_buffer s' = (if k = 0 then [] else tl (frame_buffer s @ [f]))))"
proof -
  have n: "frames_per_second_of cap speed = N"
    unfolding assms(5) using assms(1,2) by (intro frames_per_second_floor) simp_all
  have below: "luminance_step cap speed f s =
         Inr (s\<lparr>frame_buffer := frame_buffer s @ [f], frame_counter := frame_counter s + 1\<rparr>)"
    if "int (length (frame_buffer s)) + 1 < N"
    using that by (intro luminance_step_below) (simp only: n)
  have at1: "luminance_step cap speed f s = Inl e"
    if "int (length (frame_buffer s)) + 1 = N"
      "process_dangerous (frame_height cap) (frame_width cap) (frame_buffer s @ [f]) = Inl e" for e
    using that(2) by (rule luminance_step_at(1)[rotated]) (simp only: n that(1))
  have at2: "frame_buffer s' = (if k = 0 then [] else tl (frame_buffer s @ [f]))"
    if "int (length (frame_buffer s)) + 1 = N"
      "process_dangerous (frame_height cap) (frame_width cap) (frame_buffer s @ [f]) = Inr k"
      "luminance_step cap speed f s = Inr s'" for k s'
    using that(2,3) by (rule luminance_step_at(2)[rotated 1]) (simp only: n that(1))
  show ?thesis
  proof (intro conjI impI allI)
    show "frames_per_second_of cap speed = N" by (rule n)
    show "luminance_step cap speed f s =
         Inr (s\<lparr>frame_buffer := frame_buffer s @ [f], frame_counter := frame_counter s + 1\<rparr>)"
      if "int (length (frame_buffer s)) + 1 < N"
      using that by (rule below)
    show "luminance_step cap speed f s = Inl e"
      if "int (length (frame_buffer s)) + 1 = N"
        "process_dangerous (frame_height cap) (frame_width cap) (frame_buffer s @ [f]) = Inl e" for e
      using that by (rule at1)
    show "frame_buffer s' = (if k = 0 then [] else tl (frame_buffer s @ [f]))"
      if "int (length (frame_buffer s)) + 1 = N"
        "process_dangerous (frame_height cap) (frame_width cap) (frame_buffer s @ [f]) = Inr k"
        "luminance_step cap speed f s = Inr s'" for k s'
      using that by (rule at2)
  qed
qed

theorem frames_per_second_truncates_witness:
  "frames_per_second_of
     \<lparr>opened = True, frame_height = 4, frame_width = 4, frame_count = 8, fps = 4, frames = []\<rparr>
     1 = 4 \<and>
   luminance_step
     \<lparr>opened = True, frame_height = 4, frame_width = 4, frame_count = 8, fps = 4, frames = []\<rparr>
     1 (\<lambda>_ _. (0, 255, 0))
     \<lparr>frame_counter = 0, frame_buffer = [], frame_buffer_red = new_Buffer 4 4 4,
      start_danger = - 1, timestamps = []\<rparr>
   = Inr \<lparr>frame_counter = 1, frame_buffer = [\<lambda>_ _. (0, 255, 0)],
           frame_buffer_red = new_Buffer 4 4 4, start_danger = - 1, timestamps = []\<rparr> \<and>
   (case luminance_step
       \<lparr>opened = True, frame_height = 4, frame_width = 4, frame_count = 8, fps = 4, frames = []\<rparr>
       1 (\<lambda>_ _. (0, 255, 0))
       \<lparr>frame_counter = 3,
        frame_buffer = [\<lambda>_ _. (0, 0, 0), \<lambda>_ _. (0, 255, 0), \<lambda>_ _. (0, 0, 0)],
        frame_buffer_red = new_Buffer 4 4 4, start_danger = - 1, timestamps = []\<rparr> of
      Inl e \<Rightarrow> False
    | Inr s' \<Rightarrow> frame_buffer s' = [\<lambda>_ _. (0, 255, 0), \<lambda>_ _. (0, 0, 0), \<lambda>_ _. (0, 255, 0)])"
proof -
  define cap where "cap =
    \<lparr>opened = True, frame_height = 4, frame_width = 4, frame_count = 8, fps = 4, frames = []\<rparr>"
  define W :: frame where "W = (\<lambda>_ _. (0, 255, 0))"
  define B :: frame where "B = (\<lambda>_ _. (0, 0, 0))"
  define s0 where "s0 = \<lparr>frame_counter = 0, frame_buffer = [],
    frame_buffer_red = new_Buffer 4 4 4, start_danger = - 1, timestamps = []\<rparr>"
  define s3 where "s3 = \<lparr>frame_counter = 3, frame_buffer = [B, W, B],
    frame_buffer_red = new_Buffer 4 4 4, start_danger = - 1, timestamps = []\<rparr>"
  have rd: "round_double 4 = 4" using round_double_of_int[of 4] by simp
  have h: "0 \<le> fps cap" "0.2 \<le> (1::real)" "(1::real) \<le> 5"
    "\<not> double_overflow (round_double (real_of_int \<lfloor>fps cap\<rfloor>) * 1)"
    "(4::int) = \<lfloor>round_double (round_double (real_of_int \<lfloor>fps cap\<rfloor>) * 1)\<rfloor>"
    by (simp_all add: cap_def rd double_overflow_def)
  note t0 = frames_per_second_truncates[OF h, of s0 W]
  note t3 = frames_per_second_truncates[OF h, of s3 W]
  have n: "frames_per_second_of cap 1 = 4" using t0 by blast
  have "int (length (frame_buffer s0)) + 1 < 4" by (simp add: s0_def)
  then have a: "luminance_step cap 1 W s0 =
      Inr (s0\<lparr>frame_buffer := frame_buffer s0 @ [W], frame_counter := frame_counter s0 + 1\<rparr>)"
    using t0 by blast
  have w: "process_dangerous (frame_height cap) (frame_width cap) (frame_buffer s3 @ [W]) = Inr 3"
    using window_bwbw by (simp add: cap_def s3_def B_def W_def)
  have l3: "int (length (frame_buffer s3)) + 1 = 4" by (simp add: s3_def)
  have w2: "process_dangerous (frame_height cap) (frame_width cap) [B, W, B, W] = Inr 3"
    using w by (simp add: s3_def)
  have "\<exists>s'. luminance_step cap 1 W s3 = Inr s'"
    by (simp add: luminance_step_def Let_def deque_append_def n hertz_def skip_enabled_def
        s3_def w2)
  then obtain s' where s': "luminance_step cap 1 W s3 = Inr s'" by blast
  have "frame_buffer s' = (if (3::nat) = 0 then [] else tl (frame_buffer s3 @ [W]))"
    using t3 l3 w s' by blast
  then have b: "frame_buffer s' = [W, B, W]" by (simp add: s3_def)
  show ?thesis
    using n a b unfolding s' cap_def[symmetric] W_def[symmetric] B_def[symmetric]
      s0_def[symmetric] s3_def[symmetric]
    by (simp add: s' s0_def)
qed

text \<open>
  C4, as the claim states it, fails: a video of 30 frames per second at speed 0.25 has a
  window of \<open>int(30 * 0.25) = 7\<close> frames, and \<open>round(30 * 0.25) = 8\<close>.  The seventh frame of
  one colour fills the window: it is analysed, no flash is found and the deque is cleared;
  a deque for 8 frames would hold 7 frames after it.
\<close>

theorem frames_per_second_round_counterexample:
  "frames_per_second_of
     \<lparr>opened = True, frame_height = 4, frame_width = 4, frame_count = 8, fps = 30, frames = []\<rparr>
     0.25 = 7 \<and>
   round (30 * 0.25 :: real) = 8 \<and>
   luminance_step
     \<lparr>opened = True, frame_height = 4, frame_width = 4, frame_count = 8, fps = 30, frames = []\<rparr>
     0.25 (\<lambda>_ _. (0, 255, 0))
     \<lparr>frame_counter = 6, frame_buffer = replicate 6 (\<lambda>_ _. (0, 255, 0)),
      frame_buffer_red = new_Buffer 4 4 30, start_danger = - 1, timestamps = []\<rparr>
   = Inr \<lparr>frame_counter = 7, frame_buffer = [],
           frame_buffer_red = new_Buffer 4 4 30, start_danger = - 1, timestamps = []\<rparr>"
proof -
  define cap where "cap =
    \<lparr>opened = True, frame_height = 4, frame_width = 4, frame_count = 8, fps = 30, frames = []\<rparr>"
  define W :: frame where "W = (\<lambda>_ _. (0, 255, 0))"
  have rd: "round_double 30 = 30" using round_double_of_int[of 30] by simp
  have rd2: "round_double (15 / 2) = 15 / 2"
    by (subst round_double_eval_frac[where e = 2])
      (simp_all add: round_half_even_def Let_def power_int_def)
  have n: "frames_per_second_of cap 0.25 = 7"
    by (simp add: frames_per_second_of_def frame_rate_of_def py_int_def cap_def rd rd2)
  have r: "round (30 * 0.25 :: real) = 8" by (simp add: round_def)
  have "process_dangerous 4 4 (replicate 7 W) =
      detect_changes (precalculate_luminances 4 4 (replicate 7 W)) 7 1"
    unfolding process_dangerous_4x4 by simp
  also have "\<dots> = Inr 0"
  proof (rule detect_changes_identical)
    fix f f' r c :: nat assume "f < 7" "f' < 7"
    then show "precalculate_luminances 4 4 (replicate 7 W) f r c =
        precalculate_luminances 4 4 (replicate 7 W) f' r c"
      by (simp add: precalculate_luminances_def)
  qed
  finally have w: "process_dangerous 4 4 (replicate 7 W) = Inr 0" .
  have e: "replicate 6 W @ [W] = replicate 7 W"
    by (simp add: replicate_append_same numeral_eq_Suc)
  have "luminance_step cap 0.25 W
     \<lparr>frame_counter = 6, frame_buffer = replicate 6 W,
      frame_buffer_red = new_Buffer 4 4 30, start_danger = - 1, timestamps = []\<rparr>
   = Inr \<lparr>frame_counter = 7, frame_buffer = [],
           frame_buffer_red = new_Buffer 4 4 30, start_danger = - 1, timestamps = []\<rparr>"
    unfolding luminance_step_def Let_def n
    by (simp add: deque_append_def e w cap_def hertz_def skip_enabled_def)
  then show ?thesis using n r unfolding cap_def W_def by (intro conjI)
qed

text \<open>Where an exception can come from: none but the speed check raises its error.\<close>

lemma for_loop_Inl:
  "for_loop xs body s = Inl r \<Longrightarrow> \<exists>i s'. body i s' = Inl r"
proof (induction xs arbitrary: s)
  case Nil
  then show ?case by simp
next
  case (Cons x xs)
  then show ?case by (cases "body x s") auto
qed

lemma scan_body_Inl: "scan_body lum n S s = Inl (Inl e) \<Longrightarrow> e = IndexError"
  by (auto simp: scan_body_def Let_def split: if_splits)

lemma detect_changes_Inl:
  assumes "detect_changes lum n S = Inl e"
  shows "e = IndexError"
proof -
  from assms obtain s0 where l0: "for_loop [0..<n] (\<lambda>i s0.
             let s1 = s0\<lparr>frame_idx := i\<rparr> in
             for_loop [frame_idx s1 + 1..<n] (\<lambda>j s2.
               for_loop [0..<S] (\<lambda>r s3.
                 for_loop [0..<S] (\<lambda>c s4. scan_body lum n S (s4\<lparr>col := c\<rparr>))
                 (s3\<lparr>row := r\<rparr>))
               (s2\<lparr>future_frame := j\<rparr>))
             s1) s0 = Inl (Inl e)"
    by (auto simp: detect_changes_def split: sum.splits)
  from for_loop_Inl[OF l0] obtain i s1 where l1: "for_loop [i + 1..<n] (\<lambda>j s2.
               for_loop [0..<S] (\<lambda>r s3.
                 for_loop [0..<S] (\<lambda>c s4. scan_body lum n S (s4\<lparr>col := c\<rparr>))
                 (s3\<lparr>row := r\<rparr>))
               (s2\<lparr>future_frame := j\<rparr>)) (s1\<lparr>frame_idx := i\<rparr>) = Inl (Inl e)"
    by (auto simp: Let_def)
  from for_loop_Inl[OF l1] obtain j s2 where l2: "for_loop [0..<S] (\<lambda>r s3.
                 for_loop [0..<S] (\<lambda>c s4. scan_body lum n S (s4\<lparr>col := c\<rparr>))
                 (s3\<lparr>row := r\<rparr>)) (s2\<lparr>future_frame := j\<rparr>) = Inl (Inl e)"
    by auto
  from for_loop_Inl[OF l2] obtain r s3 where
    l3: "for_loop [0..<S] (\<lambda>c s4. scan_body lum n S (s4\<lparr>col := c\<rparr>)) (s3\<lparr>row := r\<rparr>) = Inl (Inl e)"
    by auto
  from for_loop_Inl[OF l3] obtain c s4 where "scan_body lum n S (s4\<lparr>col := c\<rparr>) = Inl (Inl e)"
    by auto
  then show ?thesis by (rule scan_body_Inl)
qed

lemma calc_viewport_Inl:
  "calc_viewport res a b c = Inl e \<Longrightarrow> e \<noteq> speed_error"
  by (auto simp: calc_viewport_def Let_def speed_error_def split: if_splits)

lemma process_dangerous_Inl:
  assumes "process_dangerous H W fs = Inl e"
  shows "e \<noteq> speed_error"
proof (cases "calc_viewport (H, W) (15 * 2.54) (26 * 2.54) 10")
  case (Inl e')
  then have "e = e'" using assms unfolding process_dangerous_def by simp
  then show ?thesis using calc_viewport_Inl[OF Inl] by simp
next
  case (Inr sq)
  show ?thesis
    using assms unfolding process_dangerous_def Inr
    by (auto simp: Let_def speed_error_def split: if_splits dest!: detect_changes_Inl)
qed


lemma add_frame_body_Inl:
  "add_frame_body frame i j b = Inl e \<Longrightarrow> e \<noteq> speed_error"
  by (cases frame)
    (auto simp: add_frame_body_def Let_def speed_error_def split: if_splits prod.splits)

lemma add_frame_Inl:
  assumes "add_frame b frame = Inl e"
  shows "e \<noteq> speed_error"
proof -
  from assms have l0: "for_loop [0..<buf_n b]
      (\<lambda>i. for_loop [0..<buf_n b] (\<lambda>j. add_frame_body frame i j)) b = Inl e"
    by (auto simp: add_frame_def Let_def split: sum.splits if_splits)
  from for_loop_Inl[OF l0] obtain i s1 where
    l1: "for_loop [0..<buf_n b] (\<lambda>j. add_frame_body frame i j) s1 = Inl e"
    by auto
  from for_loop_Inl[OF l1] obtain j s2 where "add_frame_body frame i j s2 = Inl e"
    by auto
  then show ?thesis by (rule add_frame_body_Inl)
qed

lemma luminance_step_Inl:
  assumes "luminance_step cap speed f s = Inl e"
  shows "e \<noteq> speed_error"
proof -
  define s1 where "s1 = s\<lparr>frame_buffer :=
      deque_append (frames_per_second_of cap speed) (frame_buffer s) f\<rparr>"
  show ?thesis
  proof (cases "process_dangerous (frame_height cap) (frame_width cap) (frame_buffer s1)")
    case (Inl e')
    then have "e = e'"
      using assms unfolding luminance_step_def Let_def s1_def[symmetric]
      by (simp split: if_splits)
    then show ?thesis using process_dangerous_Inl[OF Inl] by simp
  next
    case (Inr k)
    show ?thesis
      using assms unfolding luminance_step_def Let_def s1_def[symmetric] Inr
      by (auto simp: speed_error_def split: if_splits)
  qed
qed

lemma loop_body_Inl:
  assumes "loop_body bgr2hls cap speed frame s = Inl e"
  shows "e \<noteq> speed_error"
  using assms unfolding loop_body_def
  by (auto simp: speed_error_def split: if_splits sum.splits
      dest: add_frame_Inl luminance_step_Inl)

lemma read_loop_Inl:
  "fst (read_loop bgr2hls cap speed fs s k) = Inl e \<Longrightarrow> e \<noteq> speed_error"
proof (induction fs arbitrary: s k)
  case Nil
  then show ?case by (auto simp: speed_error_def split: if_splits)
next
  case (Cons f fs)
  show ?case
  proof (cases "loop_body bgr2hls cap speed f s")
    case (Inl e')
    then have "e = e'" using Cons.prems by simp
    then show ?thesis using loop_body_Inl[OF Inl] by simp
  next
    case (Inr s')
    then show ?thesis using Cons.prems Cons.IH[of s' "k + 1"] by simp
  qed
qed

text \<open>
  C6.  A speed above 5 or below 0.2 makes \<open>detect_flashes\<close> raise the error of the speed
  check without a single \<open>cap.read()\<close>; a speed from 0.2 to 5, both included, never
  raises that error, whatever the video; speed 6 raises it before any frame is read.
\<close>

theorem detect_flashes_speed_check:
  "(speed > 5 \<or> speed < 0.2 \<longrightarrow>
      detect_flashes bgr2hls cap speed =
        (Inl (ValueError ''speed must not exceed 5x and must be positive''), 0)) \<and>
   (0.2 \<le> speed \<and> speed \<le> 5 \<longrightarrow>
      fst (detect_flashes bgr2hls cap speed) \<noteq>
        Inl (ValueError ''speed must not exceed 5x and must be positive'')) \<and>
   detect_flashes bgr2hls cap 6 =
     (Inl (ValueError ''speed must not exceed 5x and must be positive''), 0)"
proof (intro conjI impI)
  assume "speed > 5 \<or> speed < 0.2"
  then show "detect_flashes bgr2hls cap speed =
      (Inl (ValueError ''speed must not exceed 5x and must be positive''), 0)"
    by (auto simp: detect_flashes_def)
next
  show "detect_flashes bgr2hls cap 6 =
      (Inl (ValueError ''speed must not exceed 5x and must be positive''), 0)"
    by (simp add: detect_flashes_def)
next
  assume v: "0.2 \<le> speed \<and> speed \<le> 5"
  show "fst (detect_flashes bgr2hls cap speed) \<noteq>
      Inl (ValueError ''speed must not exceed 5x and must be positive'')"
  proof
    assume a: "fst (detect_flashes bgr2hls cap speed) =
      Inl (ValueError ''speed must not exceed 5x and must be positive'')"
    define r where "r = read_loop bgr2hls cap speed (frames cap)
                   \<lparr>frame_counter = 0, frame_buffer = [],
                    frame_buffer_red = new_Buffer 4 4 (frame_rate_of cap),
                    start_danger = - 1, timestamps = []\<rparr> 0"
    have "fst r = Inl speed_error"
      using a v unfolding detect_flashes_def r_def[symmetric]
      by (cases r; cases "fst r") (auto simp: speed_error_def split: if_splits)
    then show False using read_loop_Inl[of bgr2hls cap speed "frames cap" _ 0 speed_error]
      unfolding r_def by blast
  qed
qed

theorem detect_flashes_speed_check_witness:
  "detect_flashes (\<lambda>p. p)
     \<lparr>opened = True, frame_height = 4, frame_width = 4, frame_count = 1, fps = 30,
       frames = [\<lambda>_ _. (0, 0, 0)]\<rparr> 6
     = (Inl (ValueError ''speed must not exceed 5x and must be positive''), 0) \<and>
   fst (detect_flashes (\<lambda>p. p)
     \<lparr>opened = True, frame_height = 4, frame_width = 4, frame_count = 1, fps = 30,
       frames = [\<lambda>_ _. (0, 0, 0)]\<rparr> 0.2)
     \<noteq> Inl (ValueError ''speed must not exceed 5x and must be positive'') \<and>
   fst (detect_flashes (\<lambda>p. p)
     \<lparr>opened = True, frame_height = 4, frame_width = 4, frame_count = 1, fps = 30,
       frames = [\<lambda>_ _. (0, 0, 0)]\<rparr> 5)
     \<noteq> Inl (ValueError ''speed must not exceed 5x and must be positive'')"
  using detect_flashes_speed_check[of 6 "\<lambda>p. p"
     "\<lparr>opened = True, frame_height = 4, frame_width = 4, frame_count = 1, fps = 30,
       frames = [\<lambda>_ _. (0, 0, 0)]\<rparr>"]
    detect_flashes_speed_check[of "0.2" "\<lambda>p. p"
     "\<lparr>opened = True, frame_height = 4, frame_width = 4, frame_count = 1, fps = 30,
       frames = [\<lambda>_ _. (0, 0, 0)]\<rparr>"]
    detect_flashes_speed_check[of 5 "\<lambda>p. p"
     "\<lparr>opened = True, frame_height = 4, frame_width = 4, frame_count = 1, fps = 30,
       frames = [\<lambda>_ _. (0, 0, 0)]\<rparr>"]
  by simp

text \<open>The merge: from intervals that start after one another to separated intervals.\<close>

lemma remove1_at:
  assumes "p < length xs" "\<forall>k<p. xs ! k \<noteq> xs ! p"
  shows "remove1 (xs ! p) xs = take p xs @ drop (Suc p) xs"
  using assms
proof (induction xs arbitrary: p)
  case Nil
  then show ?case by simp
next
  case (Cons x xs)
  show ?case
  proof (cases p)
    case 0
    then show ?thesis by simp
  next
    case (Suc q)
    have "x \<noteq> (x # xs) ! p" using Cons.prems(2) Suc by (metis nth_Cons_0 zero_less_Suc)
    moreover have "remove1 (xs ! q) xs = take q xs @ drop (Suc q) xs"
    proof (rule Cons.IH)
      show "q < length xs" using Cons.prems(1) Suc by simp
      show "\<forall>k<q. xs ! k \<noteq> xs ! q"
        using Cons.prems(2) Suc by (metis Suc_less_eq nth_Cons_Suc)
    qed
    ultimately show ?thesis using Suc by simp
  qed
qed

end
